theory Spec2Isabelle
  imports Complex_Main "HOL-Library.Multiset" "HOL-Library.Product_Lexorder" "HOL-Library.AList"
begin

section \<open>Cards and the deck (game/deck.py)\<close>

datatype Suit = HEARTS | DIAMONDS | CLUBS | SPADES | WIZARD | JESTER

text \<open>A card is a frozen dataclass: equality is by suit and rank.\<close>

datatype Card = Card (suit: Suit) (rank: int)

text \<open>The exceptions the modelled code can raise.\<close>

datatype error = ValueError | IndexError | TypeError | AttributeError | KeyError

definition create_standard_deck :: "Card list" where
  "create_standard_deck =
     replicate 4 (Card JESTER 0) @ replicate 4 (Card WIZARD 0) @
     concat (map (\<lambda>s. map (\<lambda>r. Card s r) [1..13]) [HEARTS, DIAMONDS, CLUBS, SPADES])"

section \<open>The rules engine (game/rules.py)\<close>

definition get_trump_suit :: "Card option \<Rightarrow> Suit option" where
  "get_trump_suit trump_card =
     (case trump_card of
        None \<Rightarrow> None
      | Some c \<Rightarrow>
          if suit c = JESTER then None
          else if suit c = WIZARD then Some HEARTS
          else Some (suit c))"

definition get_valid_plays :: "Card list \<Rightarrow> Suit option \<Rightarrow> Card list" where
  "get_valid_plays hand led_suit =
     (case led_suit of
        None \<Rightarrow> hand
      | Some l \<Rightarrow>
          let same_suit = filter (\<lambda>c. suit c = l) hand in
          if same_suit \<noteq> []
          then same_suit @ filter (\<lambda>c. suit c \<in> {WIZARD, JESTER}) hand
          else hand)"

text \<open>
  Python's \<open>max(xs, key=k)\<close> walks the list once and keeps the first element whose key
  is largest; on an empty list it raises ValueError.
\<close>

fun max_by :: "('a \<Rightarrow> 'k::linorder) \<Rightarrow> 'a \<Rightarrow> 'a list \<Rightarrow> 'a" where
  "max_by key best [] = best"
| "max_by key best (x # xs) = max_by key (if key best < key x then x else best) xs"

definition py_max :: "('a \<Rightarrow> 'k::linorder) \<Rightarrow> 'a list \<Rightarrow> error + 'a" where
  "py_max key xs = (case xs of [] \<Rightarrow> Inl ValueError | x # rest \<Rightarrow> Inr (max_by key x rest))"

definition determine_trick_winner ::
  "(nat \<times> Card) list \<Rightarrow> Suit option \<Rightarrow> Suit option \<Rightarrow> error + nat" where
  "determine_trick_winner cards_played led_suit trump_suit =
     (case find (\<lambda>(p, c). suit c = WIZARD) cards_played of
        Some (p, c) \<Rightarrow> Inr p
      | None \<Rightarrow>
          if list_all (\<lambda>(p, c). suit c = JESTER) cards_played
          then (case cards_played of [] \<Rightarrow> Inl IndexError | (p, c) # rest \<Rightarrow> Inr p)
          else
            let non_jesters = filter (\<lambda>(p, c). suit c \<noteq> JESTER) cards_played;
                trumps = (case trump_suit of
                            None \<Rightarrow> []
                          | Some t \<Rightarrow> filter (\<lambda>(p, c). suit c = t) non_jesters);
                led_cards = filter (\<lambda>(p, c). Some (suit c) = led_suit) non_jesters
            in if trumps \<noteq> [] then map_sum id fst (py_max (\<lambda>x. rank (snd x)) trumps)
               else if led_cards \<noteq> [] then map_sum id fst (py_max (\<lambda>x. rank (snd x)) led_cards)
               else (case cards_played of [] \<Rightarrow> Inl IndexError | (p, c) # rest \<Rightarrow> Inr p))"

definition score_round :: "int \<Rightarrow> int \<Rightarrow> int" where
  "score_round bid tricks = (if bid = tricks then 20 + 10 * bid else - 10 * \<bar>bid - tricks\<bar>)"

section \<open>Randomness\<close>

text \<open>
  The code draws from Python's global generator. Here the generator is an explicit list of
  raw draws that is threaded through every function that consumes randomness; a source
  that has run dry keeps answering 0. \<open>random.shuffle\<close> is the standard library's
  in-place Fisher-Yates loop: for \<open>i\<close> from \<open>len - 1\<close> down to 1 it swaps
  position \<open>i\<close> with a position drawn below \<open>i + 1\<close>.
\<close>

fun draw :: "nat list \<Rightarrow> nat \<times> nat list" where
  "draw [] = (0, [])"
| "draw (r # rs) = (r, rs)"

fun shuffle_loop :: "nat \<Rightarrow> nat list \<Rightarrow> 'a list \<Rightarrow> 'a list \<times> nat list" where
  "shuffle_loop 0 rs xs = (xs, rs)"
| "shuffle_loop (Suc i) rs xs =
     (let (r, rs') = draw rs; j = r mod (Suc i + 1)
      in shuffle_loop i rs' (xs[Suc i := xs ! j, j := xs ! Suc i]))"

definition shuffle :: "nat list \<Rightarrow> 'a list \<Rightarrow> 'a list \<times> nat list" where
  "shuffle rs xs = shuffle_loop (length xs - 1) rs xs"

section \<open>Dealing (Deck.shuffle\_and\_deal)\<close>

text \<open>The inner loop over the players: one card from the deck to each hand in turn.\<close>

fun deal_players ::
  "Card list \<Rightarrow> nat list \<Rightarrow> Card list list \<times> nat \<Rightarrow> error + (Card list list \<times> nat)" where
  "deal_players deck [] (hands, card_idx) = Inr (hands, card_idx)"
| "deal_players deck (player_idx # ps) (hands, card_idx) =
     (if card_idx < length deck
      then deal_players deck ps
             (hands[player_idx := hands ! player_idx @ [deck ! card_idx]], card_idx + 1)
      else Inl IndexError)"

text \<open>The outer loop: \<open>round_num\<close> passes over the players.\<close>

fun deal_rounds ::
  "Card list \<Rightarrow> nat \<Rightarrow> nat \<Rightarrow> Card list list \<times> nat \<Rightarrow> error + (Card list list \<times> nat)" where
  "deal_rounds deck num_players 0 st = Inr st"
| "deal_rounds deck num_players (Suc k) st =
     (case deal_players deck [0..<num_players] st of
        Inl e \<Rightarrow> Inl e
      | Inr st' \<Rightarrow> deal_rounds deck num_players k st')"

definition shuffle_and_deal ::
  "nat list \<Rightarrow> nat \<Rightarrow> nat \<Rightarrow> error + ((Card list list \<times> Card option \<times> Card list) \<times> nat list)" where
  "shuffle_and_deal rs num_players round_num =
     (let (deck, rs') = shuffle rs create_standard_deck
      in case deal_rounds deck num_players round_num (replicate num_players [], 0) of
           Inl e \<Rightarrow> Inl e
         | Inr (hands, card_idx) \<Rightarrow>
             Inr ((hands,
                   (if card_idx < length deck then Some (deck ! card_idx) else None),
                   drop (card_idx + 1) deck), rs'))"

section \<open>Round state and the control loop (game/simulator.py)\<close>

record GameState =
  num_players :: nat
  round_num :: nat
  hands :: "Card list list"
  trump_card :: "Card option"
  trump_suit :: "Suit option"
  bids :: "int option list"
  tricks_won :: "int list"
  scores :: "int list"
  current_trick :: "(nat \<times> Card) list"
  trick_leader :: nat

text \<open>
  The policy interface: an agent is its two decision functions. \<open>bid\<close> receives the hand,
  the trump suit, the round number, the seat and the bids so far; \<open>play\<close> receives the
  hand, the legal cards, the trick so far, trump and led suit, the seat and the state.
\<close>

record agent =
  bid :: "Card list \<Rightarrow> Suit option \<Rightarrow> nat \<Rightarrow> nat \<Rightarrow> int option list \<Rightarrow> int"
  play :: "Card list \<Rightarrow> Card list \<Rightarrow> (nat \<times> Card) list \<Rightarrow> Suit option \<Rightarrow> Suit option
           \<Rightarrow> nat \<Rightarrow> GameState \<Rightarrow> Card"

text \<open>
  The simulator mutates \<open>self.state\<close> in place, so an exception leaves the state as it
  was at the raise: a failing run returns the exception together with that state.
\<close>

type_synonym 'a outcome = "(error \<times> GameState) + 'a"

fun bidding_loop :: "agent list \<Rightarrow> nat list \<Rightarrow> GameState \<Rightarrow> GameState outcome" where
  "bidding_loop agents [] s = Inr s"
| "bidding_loop agents (player_idx # ps) s =
     (if length agents \<le> player_idx \<or> length (hands s) \<le> player_idx then Inl (IndexError, s)
      else
        let b = bid (agents ! player_idx) (hands s ! player_idx) (trump_suit s) (round_num s)
                  player_idx (take player_idx (bids s))
        in if \<not> (0 \<le> b \<and> b \<le> int (round_num s)) then Inl (ValueError, s)
           else if length (bids s) \<le> player_idx then Inl (IndexError, s)
           else bidding_loop agents ps (s\<lparr>bids := (bids s)[player_idx := Some b]\<rparr>))"

definition bidding_phase :: "nat \<Rightarrow> agent list \<Rightarrow> GameState \<Rightarrow> GameState outcome" where
  "bidding_phase n agents s = bidding_loop agents [0..<n] s"

text \<open>
  The loop of \<open>_play_trick\<close> over the positions \<open>i\<close> of the trick; it carries the state
  and the local variable \<open>led_suit\<close>.
\<close>

fun play_cards ::
  "nat \<Rightarrow> agent list \<Rightarrow> nat list \<Rightarrow> GameState \<times> Suit option \<Rightarrow> (GameState \<times> Suit option) outcome" where
  "play_cards n agents [] (s, led_suit) = Inr (s, led_suit)"
| "play_cards n agents (i # is) (s, led_suit) =
     (let player_idx = (trick_leader s + i) mod n
      in if length (hands s) \<le> player_idx \<or> length agents \<le> player_idx then Inl (IndexError, s)
         else
           let valid_cards = get_valid_plays (hands s ! player_idx) led_suit;
               crd = play (agents ! player_idx) (hands s ! player_idx) valid_cards
                        (current_trick s) (trump_suit s) led_suit player_idx s
           in if crd \<notin> set valid_cards then Inl (ValueError, s)
              else
                let s' = s\<lparr>hands := (hands s)[player_idx := remove1 crd (hands s ! player_idx)],
                           current_trick := current_trick s @ [(player_idx, crd)]\<rparr>;
                    led_suit' =
                      (if i = 0 \<and> suit crd \<notin> {JESTER, WIZARD} then Some (suit crd)
                       else if i = 1 \<and> led_suit = None \<and> suit crd \<notin> {JESTER, WIZARD}
                            then Some (suit crd)
                       else led_suit)
                in play_cards n agents is (s', led_suit'))"

definition play_trick :: "nat \<Rightarrow> agent list \<Rightarrow> GameState \<Rightarrow> GameState outcome" where
  "play_trick n agents s =
     (case play_cards n agents [0..<n] (s\<lparr>current_trick := []\<rparr>, None) of
        Inl e \<Rightarrow> Inl e
      | Inr (s1, led_suit) \<Rightarrow>
          (case determine_trick_winner (current_trick s1) led_suit (trump_suit s1) of
             Inl e \<Rightarrow> Inl (e, s1)
           | Inr winner \<Rightarrow>
               if length (tricks_won s1) \<le> winner then Inl (IndexError, s1)
               else Inr (s1\<lparr>tricks_won := (tricks_won s1)[winner := tricks_won s1 ! winner + 1],
                           trick_leader := winner\<rparr>)))"

fun play_tricks :: "nat \<Rightarrow> agent list \<Rightarrow> nat \<Rightarrow> GameState \<Rightarrow> GameState outcome" where
  "play_tricks n agents 0 s = Inr s"
| "play_tricks n agents (Suc k) s =
     (case play_trick n agents s of
        Inl e \<Rightarrow> Inl e
      | Inr s' \<Rightarrow> play_tricks n agents k s')"

text \<open>\<open>_score_round\<close>: an unset bid makes \<open>abs(bid - won)\<close> a TypeError.\<close>

fun score_loop :: "nat list \<Rightarrow> GameState \<Rightarrow> int list \<Rightarrow> error + int list" where
  "score_loop [] s sc = Inr sc"
| "score_loop (player_idx # ps) s sc =
     (if length (bids s) \<le> player_idx \<or> length (tricks_won s) \<le> player_idx
         \<or> length sc \<le> player_idx then Inl IndexError
      else case bids s ! player_idx of
             None \<Rightarrow> Inl TypeError
           | Some b \<Rightarrow>
               score_loop ps s
                 (sc[player_idx := sc ! player_idx + score_round b (tricks_won s ! player_idx)]))"

text \<open>
  \<open>_play_round\<close> of a game with \<open>n\<close> players and cumulative scores \<open>sc\<close>: deal, bid,
  play \<open>round_num\<close> tricks, score. It returns the final round state, the new cumulative
  scores and the rest of the random source.
\<close>

definition play_round ::
  "nat list \<Rightarrow> nat \<Rightarrow> int list \<Rightarrow> nat \<Rightarrow> agent list \<Rightarrow> error + (GameState \<times> int list \<times> nat list)" where
  "play_round rs n sc rnd agents =
     (case shuffle_and_deal rs n rnd of
        Inl e \<Rightarrow> Inl e
      | Inr ((hs, tc, rest), rs') \<Rightarrow>
          (case bidding_phase n agents
                  \<lparr>num_players = n, round_num = rnd, hands = hs, trump_card = tc,
                   trump_suit = get_trump_suit tc, bids = replicate n None,
                   tricks_won = replicate n 0, scores = sc, current_trick = [],
                   trick_leader = 0\<rparr> of
             Inl (e, s) \<Rightarrow> Inl e
           | Inr s1 \<Rightarrow>
               (case play_tricks n agents rnd s1 of
                  Inl (e, s) \<Rightarrow> Inl e
                | Inr s2 \<Rightarrow>
                    (case score_loop [0..<n] s2 sc of
                       Inl e \<Rightarrow> Inl e
                     | Inr sc' \<Rightarrow> Inr (s2, sc', rs')))))"

section \<open>The determinizer (MCTSAgent.\_determinize\_state)\<close>

text \<open>The loop that hands slices of the shuffled unknown cards to the other seats.\<close>

fun redistribute ::
  "GameState \<Rightarrow> nat \<Rightarrow> Card list \<Rightarrow> nat list \<Rightarrow> Card list list \<times> nat \<Rightarrow> error + Card list list" where
  "redistribute st pidx unknown_cards [] (hs, idx) = Inr hs"
| "redistribute st pidx unknown_cards (i # is) (hs, idx) =
     (if i \<noteq> pidx
      then (if length (hands st) \<le> i then Inl IndexError
            else let hand_size = length (hands st ! i)
                 in redistribute st pidx unknown_cards is
                      (hs[i := take hand_size (drop idx unknown_cards)], idx + hand_size))
      else redistribute st pidx unknown_cards is (hs, idx))"

definition known_cards :: "GameState \<Rightarrow> nat \<Rightarrow> Card set" where
  "known_cards st pidx =
     (let my_hand = hands st ! pidx
      in set my_hand
         \<union> (\<Union>h \<in> set (filter (\<lambda>h. h \<noteq> my_hand) (hands st)). set h)
         \<union> snd ` set (current_trick st)
         \<union> (case trump_card st of None \<Rightarrow> {} | Some c \<Rightarrow> {c}))"

definition determinize_state ::
  "nat list \<Rightarrow> GameState \<Rightarrow> nat \<Rightarrow> error + (GameState \<times> nat list)" where
  "determinize_state rs st pidx =
     (if length (hands st) \<le> pidx then Inl IndexError
      else
        let (unknown_cards, rs') =
              shuffle rs (filter (\<lambda>c. c \<notin> known_cards st pidx) create_standard_deck)
        in case redistribute st pidx unknown_cards [0..<num_players st] (hands st, 0) of
             Inl e \<Rightarrow> Inl e
           | Inr hs \<Rightarrow> Inr (st\<lparr>hands := hs\<rparr>, rs'))"

section \<open>The search tree (agents/mcts\_agent.py)\<close>

text \<open>
  Nodes refer to each other (a parent reference, a list of children) and are mutated in
  place, so the tree is a store: a list of nodes, a node reference being an index into it.
  The root is node 0.
\<close>

record MCTSNode =
  state :: GameState
  parent :: "nat option"
  action :: "Card option"
  children :: "nat list"
  visits :: nat
  total_value :: real
  untried_actions :: "Card list"
  player_idx :: nat

definition node_value :: "MCTSNode \<Rightarrow> real" where
  "node_value nd = (if visits nd = 0 then 0 else total_value nd / real (visits nd))"

text \<open>
  The key of UCB1 is a pair ordered lexicographically: \<open>(True, 0)\<close> stands for
  \<open>float('inf')\<close>, \<open>(False, x)\<close> for the finite value \<open>x\<close>. The floating-point
  arithmetic of the source is idealised by the reals. \<open>math.log(0)\<close> raises ValueError.
\<close>

definition ucb1 :: "real \<Rightarrow> MCTSNode list \<Rightarrow> MCTSNode \<Rightarrow> error + (bool \<times> real)" where
  "ucb1 exploration_constant tree nd =
     (if visits nd = 0 then Inr (True, 0)
      else case parent nd of
             None \<Rightarrow> Inl AttributeError
           | Some pr \<Rightarrow>
               if visits (tree ! pr) = 0 then Inl ValueError
               else Inr (False,
                         node_value nd
                         + exploration_constant
                           * sqrt (ln (real (visits (tree ! pr))) / real (visits nd))))"

definition is_fully_expanded :: "MCTSNode \<Rightarrow> bool" where
  "is_fully_expanded nd = (length (untried_actions nd) = 0)"

definition is_terminal :: "MCTSNode \<Rightarrow> bool" where
  "is_terminal nd = list_all (\<lambda>hand. length hand = 0) (hands (state nd))"

fun keyed :: "('a \<Rightarrow> error + 'k) \<Rightarrow> 'a list \<Rightarrow> error + ('a \<times> 'k) list" where
  "keyed key [] = Inr []"
| "keyed key (x # xs) =
     (case key x of
        Inl e \<Rightarrow> Inl e
      | Inr k \<Rightarrow> (case keyed key xs of Inl e \<Rightarrow> Inl e | Inr ks \<Rightarrow> Inr ((x, k) # ks)))"

definition select_child :: "real \<Rightarrow> MCTSNode list \<Rightarrow> nat \<Rightarrow> error + nat" where
  "select_child exploration_constant tree n =
     (if children (tree ! n) = [] then Inl ValueError
      else case keyed (\<lambda>ch. ucb1 exploration_constant tree (tree ! ch)) (children (tree ! n)) of
             Inl e \<Rightarrow> Inl e
           | Inr ks \<Rightarrow> map_sum id fst (py_max snd ks))"

definition apply_action :: "GameState \<Rightarrow> Card \<Rightarrow> nat \<Rightarrow> error + GameState" where
  "apply_action st crd pidx =
     (if length (hands st) \<le> pidx then Inl IndexError
      else if crd \<in> set (hands st ! pidx)
           then Inr (st\<lparr>hands := (hands st)[pidx := remove1 crd (hands st ! pidx)]\<rparr>)
           else Inr st)"

definition get_valid_actions :: "GameState \<Rightarrow> nat \<Rightarrow> error + Card list" where
  "get_valid_actions st pidx =
     (if length (hands st) \<le> pidx then Inl IndexError else Inr (hands st ! pidx))"

definition simulate :: "GameState \<Rightarrow> nat \<Rightarrow> error + int" where
  "simulate st pidx =
     (if length (bids st) \<le> pidx \<or> length (tricks_won st) \<le> pidx then Inl IndexError
      else case bids st ! pidx of
             None \<Rightarrow> Inl TypeError
           | Some my_bid \<Rightarrow>
               let my_tricks = tricks_won st ! pidx
               in if my_bid = my_tricks then Inr (20 + 10 * my_bid)
                  else Inr (- 10 * \<bar>my_bid - my_tricks\<bar>))"

text \<open>
  \<open>_expand\<close> pops the last untried action of node \<open>n\<close>, builds the child from a copy of
  the simulation state and appends it to the store and to the children of \<open>n\<close>.
\<close>

definition expand :: "MCTSNode list \<Rightarrow> nat \<Rightarrow> GameState \<Rightarrow> error + (MCTSNode list \<times> nat)" where
  "expand tree n sim_state =
     (let nd = tree ! n
      in if untried_actions nd = [] then Inl IndexError
         else
           let a = last (untried_actions nd)
           in case apply_action sim_state a (player_idx nd) of
                Inl e \<Rightarrow> Inl e
              | Inr child_state \<Rightarrow>
                  (case get_valid_actions child_state (player_idx nd) of
                     Inl e \<Rightarrow> Inl e
                   | Inr acts \<Rightarrow>
                       Inr (tree[n := nd\<lparr>untried_actions := butlast (untried_actions nd),
                                         children := children nd @ [length tree]\<rparr>]
                            @ [\<lparr>state = child_state, parent = Some n, action = Some a,
                                children = [], visits = 0, total_value = 0,
                                untried_actions = acts, player_idx = player_idx nd\<rparr>],
                            length tree)))"

text \<open>The step that follows a move to node \<open>n\<close>: \<open>if node.action: sim_state = _apply_action(...)\<close>.\<close>

definition apply_node_action :: "MCTSNode list \<Rightarrow> nat \<Rightarrow> GameState \<Rightarrow> error + GameState" where
  "apply_node_action tree n sim_state =
     (case action (tree ! n) of
        None \<Rightarrow> Inr sim_state
      | Some a \<Rightarrow> apply_action sim_state a (player_idx (tree ! n)))"

text \<open>
  The selection loop and the walk up the parent references are \<open>while\<close> loops; a run that
  does not return is the value \<open>None\<close>.
\<close>

partial_function (option) select_loop ::
  "real \<Rightarrow> MCTSNode list \<Rightarrow> nat \<Rightarrow> GameState \<Rightarrow> (error + nat \<times> GameState) option" where
  "select_loop exploration_constant tree n sim_state =
     (if \<not> is_terminal (tree ! n) \<and> is_fully_expanded (tree ! n)
      then (case select_child exploration_constant tree n of
              Inl e \<Rightarrow> Some (Inl e)
            | Inr ch \<Rightarrow>
                (case apply_node_action tree ch sim_state of
                   Inl e \<Rightarrow> Some (Inl e)
                 | Inr sim_state' \<Rightarrow> select_loop exploration_constant tree ch sim_state'))
      else Some (Inr (n, sim_state)))"

partial_function (option) backpropagate ::
  "MCTSNode list \<Rightarrow> nat option \<Rightarrow> real \<Rightarrow> MCTSNode list option" where
  "backpropagate tree node v =
     (case node of
        None \<Rightarrow> Some tree
      | Some n \<Rightarrow>
          backpropagate
            (tree[n := (tree ! n)\<lparr>visits := visits (tree ! n) + 1,
                                  total_value := total_value (tree ! n) + v\<rparr>])
            (parent (tree ! n)) v)"

text \<open>The expansion step of one simulation, at the node the selection stopped at.\<close>

definition expansion ::
  "MCTSNode list \<Rightarrow> nat \<Rightarrow> GameState \<Rightarrow> error + (MCTSNode list \<times> nat \<times> GameState)" where
  "expansion tree n sim_state =
     (if \<not> is_terminal (tree ! n) \<and> \<not> is_fully_expanded (tree ! n)
      then (case expand tree n sim_state of
              Inl e \<Rightarrow> Inl e
            | Inr (tree', ch) \<Rightarrow>
                (case apply_node_action tree' ch sim_state of
                   Inl e \<Rightarrow> Inl e
                 | Inr sim_state' \<Rightarrow> Inr (tree', ch, sim_state')))
      else Inr (tree, n, sim_state))"

text \<open>One pass of the simulation loop of \<open>_mcts_search\<close>.\<close>

definition simulation ::
  "real \<Rightarrow> nat \<Rightarrow> GameState \<Rightarrow> MCTSNode list \<Rightarrow> (error + MCTSNode list) option" where
  "simulation exploration_constant pidx st tree =
     (case select_loop exploration_constant tree 0 st of
        None \<Rightarrow> None
      | Some (Inl e) \<Rightarrow> Some (Inl e)
      | Some (Inr (n, sim_state)) \<Rightarrow>
          (case expansion tree n sim_state of
             Inl e \<Rightarrow> Some (Inl e)
           | Inr (tree', n', sim_state') \<Rightarrow>
               (case simulate sim_state' pidx of
                  Inl e \<Rightarrow> Some (Inl e)
                | Inr v \<Rightarrow> map_option Inr (backpropagate tree' (Some n') (real_of_int v)))))"

fun run_simulations ::
  "real \<Rightarrow> nat \<Rightarrow> GameState \<Rightarrow> nat \<Rightarrow> MCTSNode list \<Rightarrow> (error + MCTSNode list) option" where
  "run_simulations exploration_constant pidx st 0 tree = Some (Inr tree)"
| "run_simulations exploration_constant pidx st (Suc k) tree =
     (case simulation exploration_constant pidx st tree of
        None \<Rightarrow> None
      | Some (Inl e) \<Rightarrow> Some (Inl e)
      | Some (Inr tree') \<Rightarrow> run_simulations exploration_constant pidx st k tree')"

text \<open>The root node that \<open>_mcts_search\<close> creates.\<close>

definition root_node :: "GameState \<Rightarrow> nat \<Rightarrow> Card list \<Rightarrow> MCTSNode" where
  "root_node st pidx valid_cards =
     \<lparr>state = st, parent = None, action = None, children = [], visits = 0,
      total_value = 0, untried_actions = valid_cards, player_idx = pidx\<rparr>"

definition mcts_search ::
  "real \<Rightarrow> nat \<Rightarrow> GameState \<Rightarrow> nat \<Rightarrow> Card list \<Rightarrow> (error + Card option \<times> real) option" where
  "mcts_search exploration_constant num_simulations st pidx valid_cards =
     (case run_simulations exploration_constant pidx st num_simulations
             [root_node st pidx valid_cards] of
        None \<Rightarrow> None
      | Some (Inl e) \<Rightarrow> Some (Inl e)
      | Some (Inr tree) \<Rightarrow>
          if children (tree ! 0) = []
          then (case valid_cards of
                  [] \<Rightarrow> Some (Inl IndexError)
                | c # rest \<Rightarrow> Some (Inr (Some c, 0)))
          else Some (map_sum id (\<lambda>best_child. (action (tree ! best_child), node_value (tree ! best_child)))
                       (py_max (\<lambda>ch. visits (tree ! ch)) (children (tree ! 0)))))"

text \<open>
  \<open>MCTSAgent.play\<close>: \<open>action_values\<close> is a dictionary, here an association list in
  insertion order. The loop over the determinizations threads the random source.
\<close>

fun play_loop ::
  "real \<Rightarrow> nat \<Rightarrow> nat \<Rightarrow> GameState \<Rightarrow> nat \<Rightarrow> Card list \<Rightarrow> nat list \<Rightarrow> (Card \<times> real) list
   \<Rightarrow> (error + (Card \<times> real) list \<times> nat list) option" where
  "play_loop exploration_constant num_simulations 0 st pidx valid_cards rs action_values =
     Some (Inr (action_values, rs))"
| "play_loop exploration_constant num_simulations (Suc d) st pidx valid_cards rs action_values =
     (case determinize_state rs st pidx of
        Inl e \<Rightarrow> Some (Inl e)
      | Inr (determinized_state, rs') \<Rightarrow>
          (case mcts_search exploration_constant num_simulations determinized_state pidx valid_cards of
             None \<Rightarrow> None
           | Some (Inl e) \<Rightarrow> Some (Inl e)
           | Some (Inr (best_card, v)) \<Rightarrow>
               (case best_card of
                  None \<Rightarrow> Some (Inl KeyError)
                | Some crd \<Rightarrow>
                    (case map_of action_values crd of
                       None \<Rightarrow> Some (Inl KeyError)
                     | Some old \<Rightarrow>
                         play_loop exploration_constant num_simulations d st pidx valid_cards rs'
                           (AList.update crd (old + v) action_values)))))"

definition mcts_play ::
  "real \<Rightarrow> nat \<Rightarrow> nat \<Rightarrow> nat list \<Rightarrow> Card list \<Rightarrow> nat \<Rightarrow> GameState \<Rightarrow> (error + Card \<times> nat list) option" where
  "mcts_play exploration_constant num_simulations num_determinizations rs valid_cards pidx st =
     (case play_loop exploration_constant num_simulations num_determinizations st pidx valid_cards rs
             (fold (\<lambda>crd d. AList.update crd 0 d) valid_cards []) of
        None \<Rightarrow> None
      | Some (Inl e) \<Rightarrow> Some (Inl e)
      | Some (Inr (action_values, rs')) \<Rightarrow>
          Some (map_sum id (\<lambda>best. (fst best, rs')) (py_max snd action_values)))"

section \<open>Notions used to state the properties\<close>

text \<open>
  The seat that played the first Wizard of a trick, and the seat of the highest-ranked entry
  of a list of plays (the first such entry, should two entries have the same rank).
\<close>

definition first_wizard :: "(nat \<times> Card) list \<Rightarrow> nat \<Rightarrow> bool" where
  "first_wizard plays w =
     (\<exists>i<length plays. fst (plays ! i) = w \<and> suit (snd (plays ! i)) = WIZARD
        \<and> (\<forall>j<i. suit (snd (plays ! j)) \<noteq> WIZARD))"

definition first_highest :: "(nat \<times> Card) list \<Rightarrow> nat \<Rightarrow> bool" where
  "first_highest L w =
     (\<exists>i<length L. fst (L ! i) = w
        \<and> (\<forall>j<length L. rank (snd (L ! j)) \<le> rank (snd (L ! i)))
        \<and> (\<forall>j<i. rank (snd (L ! j)) < rank (snd (L ! i))))"

text \<open>The plays of a given suit among the non-Jester cards of a trick.\<close>

definition plays_of_suit :: "(nat \<times> Card) list \<Rightarrow> Suit option \<Rightarrow> (nat \<times> Card) list" where
  "plays_of_suit plays s = filter (\<lambda>x. suit (snd x) \<noteq> JESTER \<and> Some (suit (snd x)) = s) plays"

text \<open>
  The priority order of the trick winner in the words of the specification: first Wizard;
  else first play if all are Jesters; else highest trump; else highest card of the led suit.
\<close>

definition four_rule_winner ::
  "(nat \<times> Card) list \<Rightarrow> Suit option \<Rightarrow> Suit option \<Rightarrow> nat \<Rightarrow> bool" where
  "four_rule_winner plays led trump w =
     (if \<exists>x\<in>set plays. suit (snd x) = WIZARD then first_wizard plays w
      else if \<forall>x\<in>set plays. suit (snd x) = JESTER then w = fst (hd plays)
      else if plays_of_suit plays trump \<noteq> [] then first_highest (plays_of_suit plays trump) w
      else first_highest (plays_of_suit plays led) w)"

text \<open>The same order, completed by the last line of the function: the seat of the first play
  when no card of the led suit was played either.\<close>

definition five_case_winner ::
  "(nat \<times> Card) list \<Rightarrow> Suit option \<Rightarrow> Suit option \<Rightarrow> nat \<Rightarrow> bool" where
  "five_case_winner plays led trump w =
     (if \<exists>x\<in>set plays. suit (snd x) = WIZARD then first_wizard plays w
      else if \<forall>x\<in>set plays. suit (snd x) = JESTER then w = fst (hd plays)
      else if plays_of_suit plays trump \<noteq> [] then first_highest (plays_of_suit plays trump) w
      else if plays_of_suit plays led \<noteq> [] then first_highest (plays_of_suit plays led) w
      else w = fst (hd plays))"

text \<open>
  The bid an agent returns when asked in state \<open>s\<close> (given the bids before its seat),
  and the range check of the bidding phase.
\<close>

definition returned_bid :: "agent list \<Rightarrow> GameState \<Rightarrow> nat \<Rightarrow> int" where
  "returned_bid agents s p =
     bid (agents ! p) (hands s ! p) (trump_suit s) (round_num s) p (take p (bids s))"

definition bid_in_range :: "GameState \<Rightarrow> int \<Rightarrow> bool" where
  "bid_in_range s b = (0 \<le> b \<and> b \<le> int (round_num s))"

section \<open>Example inputs\<close>

text \<open>Agents that bid a fixed number and play the first, or the last, of their legal cards.\<close>

definition fixed_agent :: "int \<Rightarrow> agent" where
  "fixed_agent b =
     \<lparr>bid = (\<lambda>hand trump r p sofar. b), play = (\<lambda>hand valid trick trump led p s. hd valid)\<rparr>"

definition last_card_agent :: "int \<Rightarrow> agent" where
  "last_card_agent b =
     \<lparr>bid = (\<lambda>hand trump r p sofar. b), play = (\<lambda>hand valid trick trump led p s. last valid)\<rparr>"

text \<open>A three-player state of round 1 before the bidding.\<close>

definition unbid_state :: GameState where
  "unbid_state =
     \<lparr>num_players = 3, round_num = 1,
      hands = [[Card HEARTS 5], [Card SPADES 13], [Card DIAMONDS 2]],
      trump_card = Some (Card CLUBS 9), trump_suit = Some CLUBS,
      bids = [None, None, None], tricks_won = [0, 0, 0], scores = [0, 0, 0],
      current_trick = [], trick_leader = 0\<rparr>"

text \<open>
  A four-player state of round 2 at the start of the first trick: seats 0 and 1 hold a
  Jester, seat 2 the five of Hearts, seat 3 the two of Hearts and the King of Spades.
\<close>

definition jester_lead_state :: GameState where
  "jester_lead_state =
     \<lparr>num_players = 4, round_num = 2,
      hands = [[Card JESTER 0, Card CLUBS 3], [Card JESTER 0, Card CLUBS 4],
               [Card HEARTS 5, Card DIAMONDS 6], [Card HEARTS 2, Card SPADES 13]],
      trump_card = Some (Card DIAMONDS 9), trump_suit = Some DIAMONDS,
      bids = [Some 0, Some 0, Some 1, Some 1], tricks_won = [0, 0, 0, 0], scores = [0, 0, 0, 0],
      current_trick = [], trick_leader = 0\<rparr>"


text \<open>A three-player state of round 1 after the bidding, seat 0 to lead.\<close>

definition round1_state :: GameState where
  "round1_state =
     \<lparr>num_players = 3, round_num = 1,
      hands = [[Card HEARTS 5], [Card SPADES 13], [Card DIAMONDS 2]],
      trump_card = Some (Card CLUBS 9), trump_suit = Some CLUBS,
      bids = [Some 0, Some 1, Some 0], tricks_won = [0, 0, 0], scores = [0, 0, 0],
      current_trick = [], trick_leader = 0\<rparr>"

text \<open>A trick of two Jesters followed by the five of Hearts.\<close>

definition jester_trick :: "(nat \<times> Card) list" where
  "jester_trick = [(0, Card JESTER 0), (1, Card JESTER 0), (2, Card HEARTS 5)]"

text \<open>
  The final round of a three-player game: all 60 cards are dealt (round-robin from the deck
  in its initial order), there is no trump card, seat 0 is to lead.
\<close>

definition final_round_state :: GameState where
  "final_round_state =
     \<lparr>num_players = 3, round_num = 20,
      hands = map (\<lambda>p. map (\<lambda>k. create_standard_deck ! (k * 3 + p)) [0..<20]) [0..<3],
      trump_card = None, trump_suit = None,
      bids = [Some 7, Some 6, Some 7], tricks_won = [0, 0, 0], scores = [0, 0, 0],
      current_trick = [], trick_leader = 0\<rparr>"

text \<open>
  A three-player state of round 3: seat 0 has led the two of Hearts, seat 1 is to play and
  holds two Hearts and a Spade.
\<close>

definition follow_state :: GameState where
  "follow_state =
     \<lparr>num_players = 3, round_num = 3,
      hands = [[Card CLUBS 4, Card CLUBS 8],
               [Card HEARTS 5, Card HEARTS 7, Card SPADES 3],
               [Card DIAMONDS 2, Card DIAMONDS 9, Card SPADES 10]],
      trump_card = Some (Card DIAMONDS 1), trump_suit = Some DIAMONDS,
      bids = [Some 1, Some 1, Some 0], tricks_won = [0, 0, 0], scores = [0, 0, 0],
      current_trick = [(0, Card HEARTS 2)], trick_leader = 0\<rparr>"

text \<open>The search tree once the root over \<open>follow_state\<close> has been expanded once.\<close>

definition follow_tree :: "MCTSNode list" where
  "follow_tree =
     [(root_node follow_state 1 [Card HEARTS 5, Card HEARTS 7])
        \<lparr>untried_actions := [Card HEARTS 5], children := [1]\<rparr>,
      \<lparr>state = follow_state\<lparr>hands := [[Card CLUBS 4, Card CLUBS 8],
                                      [Card HEARTS 5, Card SPADES 3],
                                      [Card DIAMONDS 2, Card DIAMONDS 9, Card SPADES 10]]\<rparr>,
       parent = Some 0, action = Some (Card HEARTS 7), children = [], visits = 0,
       total_value = 0, untried_actions = [Card HEARTS 5, Card SPADES 3], player_idx = 1\<rparr>]"

section \<open>The trick winner\<close>

subsection \<open>Python's max\<close>

lemma pick_ge:
  fixes key :: "'a \<Rightarrow> 'k::linorder"
  shows "key b \<le> key (if key b < key x then x else b)"
    and "key x \<le> key (if key b < key x then x else b)"
  by auto

lemma max_by_mem: "max_by key b xs \<in> set (b # xs)"
  by (induction xs arbitrary: b) auto

lemma max_by_ge_best: "key b \<le> key (max_by key b xs)"
proof (induction xs arbitrary: b)
  case Nil
  show ?case by simp
next
  case (Cons x xs)
  have "key b \<le> key (if key b < key x then x else b)" by (rule pick_ge)
  also have "\<dots> \<le> key (max_by key (if key b < key x then x else b) xs)" by (rule Cons.IH)
  finally show ?case by simp
qed

lemma max_by_ge: "y \<in> set (b # xs) \<Longrightarrow> key y \<le> key (max_by key b xs)"
proof (induction xs arbitrary: b)
  case Nil
  then show ?case by simp
next
  case (Cons x xs)
  let ?b = "if key b < key x then x else b"
  have step: "max_by key b (x # xs) = max_by key ?b xs" by simp
  from Cons.prems consider "y = b" | "y = x" | "y \<in> set xs" by auto
  then show ?case
  proof cases
    case 1
    then show ?thesis using max_by_ge_best [of key b "x # xs"] by simp
  next
    case 2
    have "key x \<le> key ?b" by (rule pick_ge)
    also have "\<dots> \<le> key (max_by key ?b xs)" by (rule max_by_ge_best)
    finally show ?thesis using 2 step by simp
  next
    case 3
    then have "key y \<le> key (max_by key ?b xs)" using Cons.IH [of ?b] by simp
    then show ?thesis using step by simp
  qed
qed

lemma max_by_first:
  "\<exists>i<length (b # xs). max_by key b xs = (b # xs) ! i \<and> (\<forall>j<i. key ((b # xs) ! j) < key ((b # xs) ! i))"
proof (induction xs arbitrary: b)
  case Nil
  then show ?case by simp
next
  case (Cons x xs)
  let ?b = "if key b < key x then x else b"
  from Cons.IH [of ?b] obtain i where i: "i < length (?b # xs)"
    and r: "max_by key ?b xs = (?b # xs) ! i"
    and fs: "\<forall>j<i. key ((?b # xs) ! j) < key ((?b # xs) ! i)"
    by blast
  show ?case
  proof (cases i)
    case 0
    show ?thesis
    proof (cases "key b < key x")
      case True
      with 0 r have "max_by key b (x # xs) = (b # x # xs) ! 1" by simp
      moreover have "\<forall>j<1. key ((b # x # xs) ! j) < key ((b # x # xs) ! 1)" using True by simp
      ultimately show ?thesis by (intro exI [of _ 1]) simp
    next
      case False
      with 0 r have "max_by key b (x # xs) = (b # x # xs) ! 0" by simp
      then show ?thesis by (intro exI [of _ 0]) simp
    qed
  next
    case (Suc k)
    from fs Suc have b_lt: "key ?b < key (xs ! k)" by fastforce
    have rk: "max_by key b (x # xs) = (b # x # xs) ! (Suc (Suc k))" using r Suc by simp
    have "key ((b # x # xs) ! j) < key (xs ! k)" if "j < Suc (Suc k)" for j
    proof (cases j)
      case 0
      have "key b \<le> key ?b" by (rule pick_ge)
      with b_lt 0 show ?thesis by simp
    next
      case (Suc j')
      show ?thesis
      proof (cases j')
        case 0
        have "key x \<le> key ?b" by (rule pick_ge)
        with b_lt 0 Suc show ?thesis by simp
      next
        case (Suc j'')
        with \<open>j = Suc j'\<close> that have "Suc j'' < i" using \<open>i = Suc k\<close> by simp
        with fs have "key ((?b # xs) ! Suc j'') < key ((?b # xs) ! i)" by blast
        then show ?thesis using Suc \<open>j = Suc j'\<close> \<open>i = Suc k\<close> by simp
      qed
    qed
    with rk i Suc show ?thesis by (intro exI [of _ "Suc (Suc k)"]) simp
  qed
qed

lemma trumps_eq:
  "(case trump of None \<Rightarrow> [] | Some t \<Rightarrow> filter (\<lambda>(p, c). suit c = t) (filter (\<lambda>(p, c). suit c \<noteq> JESTER) plays))
   = plays_of_suit plays trump"
  by (cases trump) (auto simp: plays_of_suit_def intro: filter_cong)

lemma led_eq:
  "filter (\<lambda>(p, c). Some (suit c) = led) (filter (\<lambda>(p, c). suit c \<noteq> JESTER) plays)
   = plays_of_suit plays led"
  by (auto simp: plays_of_suit_def intro: filter_cong)

lemma py_max_first_highest:
  assumes "L \<noteq> []"
  shows "\<exists>x. py_max (\<lambda>x. rank (snd x)) L = Inr x \<and> first_highest L (fst x)"
proof -
  from assms obtain b xs where L: "L = b # xs" by (cases L) auto
  let ?key = "\<lambda>x::nat \<times> Card. rank (snd x)"
  from max_by_first [of b xs ?key] obtain i where i: "i < length L"
    and r: "max_by ?key b xs = L ! i"
    and fs: "\<forall>j<i. ?key (L ! j) < ?key (L ! i)"
    unfolding L by blast
  have "\<forall>j<length L. ?key (L ! j) \<le> ?key (L ! i)"
  proof (intro allI impI)
    fix j assume "j < length L"
    then have "L ! j \<in> set (b # xs)" unfolding L by (metis nth_mem)
    from max_by_ge [OF this, of ?key] show "?key (L ! j) \<le> ?key (L ! i)" using r by simp
  qed
  with i fs have "first_highest L (fst (L ! i))"
    unfolding first_highest_def by blast
  moreover have "py_max ?key L = Inr (L ! i)" using r by (simp add: py_max_def L)
  ultimately show ?thesis by blast
qed

lemma find_wizard:
  "find (\<lambda>(p, c). suit c = WIZARD) plays = None \<longleftrightarrow> \<not> (\<exists>x\<in>set plays. suit (snd x) = WIZARD)"
  by (auto simp: find_None_iff)

lemma find_first_wizard:
  assumes "find (\<lambda>(p, c). suit c = WIZARD) plays = Some (p, c)"
  shows "first_wizard plays p \<and> (\<exists>x\<in>set plays. suit (snd x) = WIZARD)"
proof -
  from assms obtain i where i: "i < length plays" and w: "suit (snd (plays ! i)) = WIZARD"
    and eq: "(p, c) = plays ! i" and fs: "\<forall>j<i. suit (snd (plays ! j)) \<noteq> WIZARD"
    by (auto simp: find_Some_iff case_prod_beta)
  from eq have "fst (plays ! i) = p" by (metis fst_conv)
  with i w fs have "first_wizard plays p" unfolding first_wizard_def by blast
  moreover from i w have "\<exists>x\<in>set plays. suit (snd x) = WIZARD" by (metis nth_mem)
  ultimately show ?thesis by blast
qed

lemma first_seat:
  "plays \<noteq> [] \<Longrightarrow>
   (case plays of [] \<Rightarrow> Inl IndexError | (p, c) # rest \<Rightarrow> Inr p) = Inr (fst (hd plays))"
  by (cases plays) auto

lemma determine_trick_winner_cases:
  assumes "plays \<noteq> []"
  shows "\<exists>w. determine_trick_winner plays led trump = Inr w \<and> five_case_winner plays led trump w"
proof (cases "find (\<lambda>(p, c). suit c = WIZARD) plays")
  case (Some pc)
  obtain p c where pc: "pc = (p, c)" by (cases pc)
  from find_first_wizard [of plays p c] Some pc
  have "first_wizard plays p" and "\<exists>x\<in>set plays. suit (snd x) = WIZARD" by auto
  moreover have "determine_trick_winner plays led trump = Inr p"
    using Some pc by (simp add: determine_trick_winner_def)
  ultimately show ?thesis by (auto simp: five_case_winner_def)
next
  case None
  then have now: "\<not> (\<exists>x\<in>set plays. suit (snd x) = WIZARD)" by (simp add: find_wizard)
  note fs = first_seat [OF assms]
  have allj: "list_all (\<lambda>(p, c). suit c = JESTER) plays \<longleftrightarrow> (\<forall>x\<in>set plays. suit (snd x) = JESTER)"
    by (auto simp: list_all_iff)
  show ?thesis
  proof (cases "\<forall>x\<in>set plays. suit (snd x) = JESTER")
    case True
    then have "determine_trick_winner plays led trump = Inr (fst (hd plays))"
      using None allj fs by (simp add: determine_trick_winner_def)
    then show ?thesis using now True by (simp add: five_case_winner_def)
  next
    case nj: False
    have unfold: "determine_trick_winner plays led trump =
      (if plays_of_suit plays trump \<noteq> []
       then map_sum id fst (py_max (\<lambda>x. rank (snd x)) (plays_of_suit plays trump))
       else if plays_of_suit plays led \<noteq> []
       then map_sum id fst (py_max (\<lambda>x. rank (snd x)) (plays_of_suit plays led))
       else Inr (fst (hd plays)))"
    proof -
      from nj allj have nall: "\<not> list_all (\<lambda>(p, c). suit c = JESTER) plays" by simp
      show ?thesis
        unfolding determine_trick_winner_def Let_def trumps_eq led_eq None fs
        using nall by simp
    qed
    show ?thesis
    proof (cases "plays_of_suit plays trump \<noteq> []")
      case True
      from py_max_first_highest [OF True] obtain x where
        "py_max (\<lambda>x. rank (snd x)) (plays_of_suit plays trump) = Inr x"
        "first_highest (plays_of_suit plays trump) (fst x)" by blast
      then show ?thesis using unfold True now nj by (auto simp: five_case_winner_def)
    next
      case nt: False
      show ?thesis
      proof (cases "plays_of_suit plays led \<noteq> []")
        case True
        from py_max_first_highest [OF True] obtain x where
          "py_max (\<lambda>x. rank (snd x)) (plays_of_suit plays led) = Inr x"
          "first_highest (plays_of_suit plays led) (fst x)" by blast
        then show ?thesis using unfold True nt now nj by (auto simp: five_case_winner_def)
      next
        case False
        then show ?thesis using unfold nt now nj by (auto simp: five_case_winner_def)
      qed
    qed
  qed
qed

lemma first_highest_mem: "first_highest L w \<Longrightarrow> w \<in> fst ` set L"
  unfolding first_highest_def by (metis image_eqI nth_mem)

lemma first_wizard_mem: "first_wizard L w \<Longrightarrow> w \<in> fst ` set L"
  unfolding first_wizard_def by (metis image_eqI nth_mem)

lemma plays_of_suit_subset: "set (plays_of_suit plays s) \<subseteq> set plays"
  by (auto simp: plays_of_suit_def)

lemma five_case_winner_mem:
  assumes "plays \<noteq> []" and "five_case_winner plays led trump w"
  shows "w \<in> fst ` set plays"
proof -
  have hd: "fst (hd plays) \<in> fst ` set plays" using assms(1) by simp
  have sub: "first_highest (plays_of_suit plays s) w \<Longrightarrow> w \<in> fst ` set plays" for s
    using first_highest_mem [of "plays_of_suit plays s" w] plays_of_suit_subset [of plays s] by blast
  from assms(2) show ?thesis
    unfolding five_case_winner_def
    using hd sub first_wizard_mem [of plays w] by (auto split: if_splits)
qed

subsection \<open>The priority order\<close>

text \<open>
  Wherever one of the four rules decides (a Wizard was played, or every card is a Jester, or
  a non-Jester card of the trump suit or of the led suit was played), the function returns
  what the four rules say.
\<close>

lemma four_rules_where_decided:
  assumes "plays \<noteq> []"
    and "(\<exists>x\<in>set plays. suit (snd x) = WIZARD) \<or> (\<forall>x\<in>set plays. suit (snd x) = JESTER)
         \<or> plays_of_suit plays trump \<noteq> [] \<or> plays_of_suit plays led \<noteq> []"
  shows "\<exists>w. determine_trick_winner plays led trump = Inr w \<and> four_rule_winner plays led trump w"
proof -
  from determine_trick_winner_cases [OF assms(1), of led trump] obtain w
    where w: "determine_trick_winner plays led trump = Inr w"
      and c: "five_case_winner plays led trump w" by blast
  from c assms(2) have "four_rule_winner plays led trump w"
    by (auto simp: five_case_winner_def four_rule_winner_def split: if_splits)
  with w show ?thesis by blast
qed

text \<open>
  After two Jesters and the five of Hearts, with no led suit and no trump, seat 0 is not the
  winner by the four rules: it played a Jester, and not every card is a Jester.
\<close>

lemma four_rules_exclude_leading_jester:
  "\<not> four_rule_winner jester_trick None None 0"
  by (simp add: jester_trick_def four_rule_winner_def plays_of_suit_def first_highest_def)

text \<open>
  C4 fails on the code. For the trick Jester, Jester, five of Hearts, resolved with no led
  suit and no trump, none of the four rules applies and the function falls through to its
  last line: it returns seat 0, so a Jester takes a trick in which a card of a suit was played.
\<close>

theorem jester_takes_trick_from_suit_card:
  "determine_trick_winner jester_trick None None = Inr 0
   \<and> jester_trick ! 0 = (0, Card JESTER 0) \<and> jester_trick ! 2 = (2, Card HEARTS 5)
   \<and> plays_of_suit jester_trick None = []"
  by (simp add: jester_trick_def determine_trick_winner_def plays_of_suit_def)

text \<open>
  C10. On a non-empty play list \<open>determine_trick_winner\<close> returns, and what it returns is
  the seat of an entry of the list. When no Wizard was played, not every card is a Jester,
  no non-Jester card is of the trump suit and none is of the led suit, it returns the seat
  of the first play.
\<close>

theorem trick_winner_total:
  assumes "plays \<noteq> []"
  shows "\<exists>w. determine_trick_winner plays led trump = Inr w \<and> w \<in> fst ` set plays
     \<and> ((\<forall>x\<in>set plays. suit (snd x) \<noteq> WIZARD) \<and> \<not> (\<forall>x\<in>set plays. suit (snd x) = JESTER)
          \<and> plays_of_suit plays trump = [] \<and> plays_of_suit plays led = []
        \<longrightarrow> w = fst (hd plays))"
proof -
  from determine_trick_winner_cases [OF assms, of led trump] obtain w
    where w: "determine_trick_winner plays led trump = Inr w"
      and c: "five_case_winner plays led trump w" by blast
  from five_case_winner_mem [OF assms c] have "w \<in> fst ` set plays" .
  moreover from c have "(\<forall>x\<in>set plays. suit (snd x) \<noteq> WIZARD) \<and> \<not> (\<forall>x\<in>set plays. suit (snd x) = JESTER)
          \<and> plays_of_suit plays trump = [] \<and> plays_of_suit plays led = []
        \<longrightarrow> w = fst (hd plays)"
    by (auto simp: five_case_winner_def)
  ultimately show ?thesis using w by blast
qed

theorem trick_winner_total_witness:
  "jester_trick \<noteq> []
   \<and> WIZARD \<notin> (\<lambda>x. suit (snd x)) ` set jester_trick
   \<and> \<not> (\<forall>x\<in>set jester_trick. suit (snd x) = JESTER)
   \<and> plays_of_suit jester_trick None = []
   \<and> determine_trick_winner jester_trick None None = Inr (fst (hd jester_trick))"
proof -
  have ne: "jester_trick \<noteq> []" by (simp add: jester_trick_def)
  have deg: "(\<forall>x\<in>set jester_trick. suit (snd x) \<noteq> WIZARD) \<and> \<not> (\<forall>x\<in>set jester_trick. suit (snd x) = JESTER)
     \<and> plays_of_suit jester_trick None = []"
    by (simp add: jester_trick_def plays_of_suit_def)
  from trick_winner_total [OF ne, of None None] deg
  have "determine_trick_winner jester_trick None None = Inr (fst (hd jester_trick))" by auto
  with ne deg show ?thesis by auto
qed

section \<open>The rollout value\<close>

text \<open>
  C7. For a state and a seat whose bid is set, \<open>_simulate\<close> returns \<open>score_round\<close> of
  that bid and the seat's tricks won: 20 + 10 * bid when they are equal, and
  -10 * |bid - tricks_won| otherwise.
\<close>

theorem simulate_equals_score_round:
  assumes "pidx < length (bids st)" and "pidx < length (tricks_won st)"
    and "bids st ! pidx = Some b"
  shows "simulate st pidx = Inr (score_round b (tricks_won st ! pidx))
       \<and> score_round b (tricks_won st ! pidx)
         = (if b = tricks_won st ! pidx then 20 + 10 * b else - 10 * \<bar>b - tricks_won st ! pidx\<bar>)"
  using assms by (simp add: simulate_def score_round_def Let_def)

theorem simulate_equals_score_round_witness:
  "1 < length (bids round1_state) \<and> 1 < length (tricks_won round1_state)
   \<and> bids round1_state ! 1 = Some 1
   \<and> simulate round1_state 1 = Inr (score_round 1 (tricks_won round1_state ! 1))
   \<and> simulate round1_state 1 = Inr (- 10)"
proof -
  have h: "1 < length (bids round1_state)" "1 < length (tricks_won round1_state)"
    "bids round1_state ! 1 = Some 1"
    by (simp_all add: round1_state_def)
  from simulate_equals_score_round [OF h] h show ?thesis
    by (simp add: round1_state_def)
qed

section \<open>Dealing\<close>

lemma shuffle_loop_perm:
  "i < length xs \<Longrightarrow> mset (fst (shuffle_loop i rs xs)) = mset xs"
proof (induction i arbitrary: rs xs)
  case 0
  then show ?case by simp
next
  case (Suc i)
  obtain r rs' where d: "draw rs = (r, rs')" by (cases "draw rs")
  let ?j = "r mod (Suc i + 1)"
  let ?ys = "xs[Suc i := xs ! ?j, ?j := xs ! Suc i]"
  have j: "?j < length xs" using Suc.prems by (metis Suc_eq_plus1 less_Suc_eq_le less_le_trans mod_less_divisor zero_less_Suc not_less)
  have "mset ?ys = mset xs" using mset_swap [OF j Suc.prems] by simp
  moreover have "i < length ?ys" using Suc.prems by simp
  ultimately have "mset (fst (shuffle_loop i rs' ?ys)) = mset xs" using Suc.IH [of ?ys rs'] by simp
  then show ?case using d by (simp add: Let_def)
qed

lemma shuffle_perm: "mset (fst (shuffle rs xs)) = mset xs"
proof (cases xs)
  case Nil
  then show ?thesis by (simp add: shuffle_def)
next
  case (Cons x ys)
  then have "length xs - 1 < length xs" by simp
  then show ?thesis unfolding shuffle_def by (rule shuffle_loop_perm)
qed

lemma shuffle_length: "length (fst (shuffle rs xs)) = length xs"
  using shuffle_perm [of rs xs] by (metis size_mset)

lemma deck_length: "length create_standard_deck = 60"
  by (simp add: create_standard_deck_def)

lemma concat_append_at:
  "p < length hs \<Longrightarrow> mset (concat (hs[p := hs ! p @ [c]])) = mset (concat hs) + {#c#}"
proof (induction hs arbitrary: p)
  case Nil
  then show ?case by simp
next
  case (Cons h hs)
  then show ?case by (cases p) auto
qed

lemma deal_players_upt:
  assumes "length hs = n" and "a \<le> n" and "idx + (n - a) \<le> length deck"
  shows "\<exists>hs'. deal_players deck [a..<n] (hs, idx) = Inr (hs', idx + (n - a))
           \<and> length hs' = n
           \<and> (\<forall>p<n. hs' ! p = (if a \<le> p then hs ! p @ [deck ! (idx + (p - a))] else hs ! p))
           \<and> mset (concat hs') = mset (concat hs) + mset (take (n - a) (drop idx deck))"
  using assms
proof (induction "n - a" arbitrary: a hs idx)
  case 0
  then show ?case by simp
next
  case (Suc d)
  then have an: "a < n" and d: "d = n - Suc a" by simp_all
  have idx: "idx < length deck" using Suc.prems an by simp
  let ?hs = "hs[a := hs ! a @ [deck ! idx]]"
  have upt: "[a..<n] = a # [Suc a..<n]" using an by (rule upt_conv_Cons)
  have step: "deal_players deck [a..<n] (hs, idx) = deal_players deck [Suc a..<n] (?hs, idx + 1)"
    using idx by (simp add: upt)
  have "\<exists>hs'. deal_players deck [Suc a..<n] (?hs, idx + 1) = Inr (hs', idx + 1 + (n - Suc a))
           \<and> length hs' = n
           \<and> (\<forall>p<n. hs' ! p = (if Suc a \<le> p then ?hs ! p @ [deck ! (idx + 1 + (p - Suc a))] else ?hs ! p))
           \<and> mset (concat hs') = mset (concat ?hs) + mset (take (n - Suc a) (drop (idx + 1) deck))"
    using Suc.prems an by (intro Suc.hyps(1) [OF d]) simp_all
  then obtain hs' where r: "deal_players deck [Suc a..<n] (?hs, idx + 1) = Inr (hs', idx + 1 + (n - Suc a))"
    and len: "length hs' = n"
    and nth: "\<forall>p<n. hs' ! p = (if Suc a \<le> p then ?hs ! p @ [deck ! (idx + 1 + (p - Suc a))] else ?hs ! p)"
    and ms: "mset (concat hs') = mset (concat ?hs) + mset (take (n - Suc a) (drop (idx + 1) deck))"
    by blast
  have 1: "deal_players deck [a..<n] (hs, idx) = Inr (hs', idx + (n - a))"
    using step r an by simp
  have 2: "hs' ! p = (if a \<le> p then hs ! p @ [deck ! (idx + (p - a))] else hs ! p)" if "p < n" for p
  proof (cases "p = a")
    case True
    then show ?thesis using nth that Suc.prems(1) by simp
  next
    case False
    then show ?thesis using nth that Suc.prems(1) by (auto simp: Suc_diff_Suc)
  qed
  have "take (n - a) (drop idx deck) = deck ! idx # take (n - Suc a) (drop (idx + 1) deck)"
    using an idx by (metis Cons_nth_drop_Suc Suc_diff_Suc Suc_eq_plus1 take_Suc_Cons)
  then have 3: "mset (concat hs') = mset (concat hs) + mset (take (n - a) (drop idx deck))"
    using ms concat_append_at [of a hs "deck ! idx"] an Suc.prems(1) by simp
  from 1 len 2 3 show ?case by blast
qed

lemma deal_rounds_inv:
  assumes "length hs = n" and "idx = m * n"
    and "\<forall>p<n. hs ! p = map (\<lambda>j. deck ! (j * n + p)) [0..<m]"
    and "mset (concat hs) = mset (take idx deck)"
    and "(m + k) * n \<le> length deck"
  shows "\<exists>hs'. deal_rounds deck n k (hs, idx) = Inr (hs', (m + k) * n)
           \<and> length hs' = n
           \<and> (\<forall>p<n. hs' ! p = map (\<lambda>j. deck ! (j * n + p)) [0..<m + k])
           \<and> mset (concat hs') = mset (take ((m + k) * n) deck)"
  using assms
proof (induction k arbitrary: m hs idx)
  case 0
  then show ?case by simp
next
  case (Suc k)
  have room: "idx + (n - 0) \<le> length deck"
  proof -
    have "Suc m * n \<le> (m + Suc k) * n" by (intro mult_le_mono1) simp
    moreover have "idx + (n - 0) = Suc m * n" using Suc.prems(2) by simp
    ultimately show ?thesis using Suc.prems(5) by (metis le_trans)
  qed
  from deal_players_upt [OF Suc.prems(1) _ room] obtain hs1
    where r1: "deal_players deck [0..<n] (hs, idx) = Inr (hs1, idx + (n - 0))"
      and len1: "length hs1 = n"
      and nth1: "\<forall>p<n. hs1 ! p = (if 0 \<le> p then hs ! p @ [deck ! (idx + (p - 0))] else hs ! p)"
      and ms1: "mset (concat hs1) = mset (concat hs) + mset (take (n - 0) (drop idx deck))"
    by blast
  have idx1: "idx + (n - 0) = Suc m * n" using Suc.prems(2) by simp
  have nth1': "\<forall>p<n. hs1 ! p = map (\<lambda>j. deck ! (j * n + p)) [0..<Suc m]"
    using nth1 Suc.prems(2,3) by simp
  have ms1': "mset (concat hs1) = mset (take (idx + (n - 0)) deck)"
    using ms1 Suc.prems(4) by (simp add: take_add)
  have bound: "(Suc m + k) * n \<le> length deck" using Suc.prems(5) by simp
  from Suc.IH [OF len1 idx1 nth1' ms1' bound] obtain hs'
    where "deal_rounds deck n k (hs1, idx + (n - 0)) = Inr (hs', (Suc m + k) * n)"
      and "length hs' = n"
      and "\<forall>p<n. hs' ! p = map (\<lambda>j. deck ! (j * n + p)) [0..<Suc m + k]"
      and "mset (concat hs') = mset (take ((Suc m + k) * n) deck)"
    by blast
  then show ?case using r1 by simp
qed

lemma deal_rounds_fresh:
  assumes "k * n \<le> length deck"
  shows "\<exists>hs'. deal_rounds deck n k (replicate n [], 0) = Inr (hs', k * n)
           \<and> length hs' = n
           \<and> (\<forall>p<n. hs' ! p = map (\<lambda>j. deck ! (j * n + p)) [0..<k])
           \<and> mset (concat hs') = mset (take (k * n) deck)"
proof -
  have c: "concat (replicate n ([]::Card list)) = []" by (induction n) simp_all
  show ?thesis
    using deal_rounds_inv [of "replicate n []" n 0 0 deck k] assms c by simp
qed

text \<open>
  C5. For 3 to 6 players and a round number with \<open>num_players * round_num \<le> 60\<close>,
  \<open>shuffle_and_deal\<close> returns \<open>num_players\<close> hands of exactly \<open>round_num\<close> cards,
  dealt round-robin from a permutation of the 60-card deck (card \<open>k\<close> of seat \<open>p\<close> is
  card \<open>k * num_players + p\<close> of the shuffled deck); the trump card is there exactly when
  \<open>num_players * round_num < 60\<close>; hands, trump card and remaining cards together are
  the deck as a multiset.
\<close>

theorem shuffle_and_deal_partition:
  assumes "3 \<le> n" and "n \<le> 6" and "n * r \<le> 60"
  shows "\<exists>hs tc rest rs' deck.
           shuffle_and_deal rs n r = Inr ((hs, tc, rest), rs')
         \<and> mset deck = mset create_standard_deck
         \<and> length hs = n
         \<and> (\<forall>p<n. length (hs ! p) = r \<and> (\<forall>k<r. hs ! p ! k = deck ! (k * n + p)))
         \<and> tc = (if n * r < 60 then Some (deck ! (n * r)) else None)
         \<and> (tc \<noteq> None \<longleftrightarrow> n * r < 60)
         \<and> rest = drop (n * r + 1) deck
         \<and> mset (concat hs) + (case tc of None \<Rightarrow> {#} | Some c \<Rightarrow> {#c#}) + mset rest
             = mset create_standard_deck"
proof -
  obtain deck rs' where sh: "shuffle rs create_standard_deck = (deck, rs')"
    by (cases "shuffle rs create_standard_deck")
  have perm: "mset deck = mset create_standard_deck" using shuffle_perm [of rs create_standard_deck] sh by simp
  have len: "length deck = 60" using shuffle_length [of rs create_standard_deck] sh deck_length by simp
  have fit: "r * n \<le> length deck" using assms(3) len by (simp add: mult.commute)
  from deal_rounds_fresh [OF fit] obtain hs
    where dr: "deal_rounds deck n r (replicate n [], 0) = Inr (hs, r * n)"
      and lh: "length hs = n"
      and nth: "\<forall>p<n. hs ! p = map (\<lambda>j. deck ! (j * n + p)) [0..<r]"
      and ms: "mset (concat hs) = mset (take (r * n) deck)"
    by blast
  let ?tc = "if n * r < 60 then Some (deck ! (n * r)) else None"
  let ?rest = "drop (n * r + 1) deck"
  have res: "shuffle_and_deal rs n r = Inr ((hs, ?tc, ?rest), rs')"
    using sh dr len by (simp add: shuffle_and_deal_def mult.commute)
  have rr: "\<forall>p<n. length (hs ! p) = r \<and> (\<forall>k<r. hs ! p ! k = deck ! (k * n + p))"
    using nth by simp
  have part: "mset (concat hs) + (case ?tc of None \<Rightarrow> {#} | Some c \<Rightarrow> {#c#}) + mset ?rest = mset deck"
  proof (cases "n * r < 60")
    case True
    then have "n * r < length deck" using len by simp
    then have "deck = take (n * r) deck @ deck ! (n * r) # drop (n * r + 1) deck"
      by (metis Suc_eq_plus1 id_take_nth_drop)
    then have "mset deck = mset (take (n * r) deck @ deck ! (n * r) # drop (n * r + 1) deck)"
      by (rule arg_cong)
    also have "\<dots> = mset (take (n * r) deck) + {#deck ! (n * r)#} + mset (drop (n * r + 1) deck)"
      by simp
    finally show ?thesis using True ms by (simp add: mult.commute)
  next
    case False
    then have "n * r = length deck" using assms(3) len by simp
    then show ?thesis using False ms by (simp add: mult.commute)
  qed
  from res perm lh rr part show ?thesis by (intro exI [of _ hs] exI [of _ ?tc] exI [of _ ?rest] exI [of _ rs'] exI [of _ deck]) simp
qed

theorem shuffle_and_deal_partition_witness:
  "(3::nat) \<le> 4 \<and> (4::nat) \<le> 6 \<and> (4::nat) * 15 \<le> 60
   \<and> (\<exists>hs rest rs'. shuffle_and_deal [7, 1, 30] 4 15 = Inr ((hs, None, rest), rs')
         \<and> length hs = 4 \<and> length (hs ! 0) = 15 \<and> length (hs ! 3) = 15
         \<and> mset (concat hs) + mset rest = mset create_standard_deck)"
proof -
  have h: "(3::nat) \<le> 4" "(4::nat) \<le> 6" "(4::nat) * 15 \<le> 60" by simp_all
  from shuffle_and_deal_partition [OF h, of "[7, 1, 30]"] obtain hs tc rest rs' deck
    where r: "shuffle_and_deal [7, 1, 30] 4 15 = Inr ((hs, tc, rest), rs')"
      and l: "length hs = 4"
      and e: "\<forall>p<4. length (hs ! p) = 15 \<and> (\<forall>k<15. hs ! p ! k = deck ! (k * 4 + p))"
      and t: "tc = (if (4::nat) * 15 < 60 then Some (deck ! (4 * 15)) else None)"
      and m: "mset (concat hs) + (case tc of None \<Rightarrow> {#} | Some c \<Rightarrow> {#c#}) + mset rest
             = mset create_standard_deck"
    by blast
  from t have tn: "tc = None" by simp
  from e have "length (hs ! 0) = 15" "length (hs ! 3) = 15" by simp_all
  with r l m tn h show ?thesis by auto
qed

section \<open>The bidding phase\<close>

lemma returned_bid_cong:
  assumes "hands s' = hands s" "trump_suit s' = trump_suit s" "round_num s' = round_num s"
    and "take p (bids s') = take p (bids s)"
  shows "returned_bid agents s' p = returned_bid agents s p"
  using assms by (simp add: returned_bid_def)

lemma bidding_loop_upt:
  assumes "length agents = n" and "length (hands s) = n" and "length (bids s) = n" and "a \<le> n"
  shows "(\<exists>s'. bidding_loop agents [a..<n] s = Inr s'
            \<and> s' = s\<lparr>bids := bids s'\<rparr> \<and> length (bids s') = n
            \<and> (\<forall>q<a. bids s' ! q = bids s ! q)
            \<and> (\<forall>p. a \<le> p \<and> p < n \<longrightarrow> bids s' ! p = Some (returned_bid agents s' p)
                    \<and> bid_in_range s (returned_bid agents s' p)))
       \<or> (\<exists>s' k. bidding_loop agents [a..<n] s = Inl (ValueError, s') \<and> a \<le> k \<and> k < n
            \<and> s' = s\<lparr>bids := bids s'\<rparr> \<and> length (bids s') = n
            \<and> (\<forall>q<a. bids s' ! q = bids s ! q)
            \<and> (\<forall>p. a \<le> p \<and> p < k \<longrightarrow> bids s' ! p = Some (returned_bid agents s' p)
                    \<and> bid_in_range s (returned_bid agents s' p))
            \<and> \<not> bid_in_range s (returned_bid agents s' k)
            \<and> (\<forall>q. k \<le> q \<and> q < n \<longrightarrow> bids s' ! q = bids s ! q))"
  using assms
proof (induction "n - a" arbitrary: a s)
  case 0
  then have "[a..<n] = []" by simp
  then show ?case using 0 by auto
next
  case (Suc d)
  then have an: "a < n" and d: "d = n - Suc a" by simp_all
  have upt: "[a..<n] = a # [Suc a..<n]" using an by (rule upt_conv_Cons)
  let ?b = "returned_bid agents s a"
  show ?case
  proof (cases "bid_in_range s ?b")
    case False
    then have "bidding_loop agents [a..<n] s = Inl (ValueError, s)"
      using an Suc.prems by (simp add: upt returned_bid_def bid_in_range_def Let_def)
    with False an Suc.prems(3) show ?thesis
      by (intro disjI2 exI [of _ s] exI [of _ a]) auto
  next
    case True
    let ?s1 = "s\<lparr>bids := (bids s)[a := Some ?b]\<rparr>"
    have step: "bidding_loop agents [a..<n] s = bidding_loop agents [Suc a..<n] ?s1"
      using True an Suc.prems by (simp add: upt returned_bid_def bid_in_range_def Let_def)
    have p1: "length (hands ?s1) = n" "length (bids ?s1) = n" "Suc a \<le> n"
      using Suc.prems an by simp_all
    have rng: "bid_in_range ?s1 = bid_in_range s" by (simp add: bid_in_range_def fun_eq_iff)
    have same: "returned_bid agents s' a = ?b \<and> bids s' ! a = Some ?b"
      if "\<forall>q<Suc a. bids s' ! q = bids ?s1 ! q" "length (bids s') = n" "s' = ?s1\<lparr>bids := bids s'\<rparr>" for s'
    proof -
      have "take a (bids s') = take a (bids s)"
      proof (rule nth_take_lemma)
        show "a \<le> length (bids s')" using that an by simp
        show "a \<le> length (bids s)" using Suc.prems an by simp
        fix i
        show "i < a \<longrightarrow> bids s' ! i = bids s ! i" using that(1) by simp
      qed
      moreover have "hands s' = hands s" "trump_suit s' = trump_suit s" "round_num s' = round_num s"
        using that(3) by (metis GameState.select_convs GameState.surjective GameState.update_convs)+
      ultimately have "returned_bid agents s' a = ?b" by (rule returned_bid_cong [rotated 3])
      moreover have "bids s' ! a = Some ?b" using that(1) an Suc.prems(3) by simp
      ultimately show ?thesis by simp
    qed
    from Suc.hyps(1) [OF d Suc.prems(1) p1]
    show ?thesis
    proof (elim disjE exE conjE)
      fix s'
      assume r: "bidding_loop agents [Suc a..<n] ?s1 = Inr s'"
        and eq: "s' = ?s1\<lparr>bids := bids s'\<rparr>" and len: "length (bids s') = n"
        and old: "\<forall>q<Suc a. bids s' ! q = bids ?s1 ! q"
        and new: "\<forall>p. Suc a \<le> p \<and> p < n \<longrightarrow> bids s' ! p = Some (returned_bid agents s' p)
                    \<and> bid_in_range ?s1 (returned_bid agents s' p)"
      have sa: "returned_bid agents s' a = ?b \<and> bids s' ! a = Some ?b" using same [OF old len eq] .
      have 1: "s' = s\<lparr>bids := bids s'\<rparr>" using eq by simp
      have 2: "\<forall>q<a. bids s' ! q = bids s ! q" using old by simp
      have 3: "bids s' ! p = Some (returned_bid agents s' p) \<and> bid_in_range s (returned_bid agents s' p)"
        if "a \<le> p \<and> p < n" for p
      proof (cases "p = a")
        case True
        with sa \<open>bid_in_range s ?b\<close> show ?thesis by simp
      next
        case False
        with that new rng show ?thesis by simp
      qed
      from r step 1 len 2 3 show ?thesis by (intro disjI1 exI [of _ s']) simp
    next
      fix s' k
      assume r: "bidding_loop agents [Suc a..<n] ?s1 = Inl (ValueError, s')"
        and k: "Suc a \<le> k" "k < n"
        and eq: "s' = ?s1\<lparr>bids := bids s'\<rparr>" and len: "length (bids s') = n"
        and old: "\<forall>q<Suc a. bids s' ! q = bids ?s1 ! q"
        and new: "\<forall>p. Suc a \<le> p \<and> p < k \<longrightarrow> bids s' ! p = Some (returned_bid agents s' p)
                    \<and> bid_in_range ?s1 (returned_bid agents s' p)"
        and bad: "\<not> bid_in_range ?s1 (returned_bid agents s' k)"
        and rest: "\<forall>q. k \<le> q \<and> q < n \<longrightarrow> bids s' ! q = bids ?s1 ! q"
      have sa: "returned_bid agents s' a = ?b \<and> bids s' ! a = Some ?b" using same [OF old len eq] .
      have 1: "s' = s\<lparr>bids := bids s'\<rparr>" using eq by simp
      have 2: "\<forall>q<a. bids s' ! q = bids s ! q" using old by simp
      have 3: "bids s' ! p = Some (returned_bid agents s' p) \<and> bid_in_range s (returned_bid agents s' p)"
        if "a \<le> p \<and> p < k" for p
      proof (cases "p = a")
        case True
        with sa \<open>bid_in_range s ?b\<close> show ?thesis by simp
      next
        case False
        with that new rng show ?thesis by simp
      qed
      have 4: "\<forall>q. k \<le> q \<and> q < n \<longrightarrow> bids s' ! q = bids s ! q" using rest k by simp
      from r step k 1 len 2 3 4 bad rng show ?thesis
        by (intro disjI2 exI [of _ s'] exI [of _ k]) simp
    qed
  qed
qed

text \<open>
  C9. The bidding phase, started with one agent per seat, ends in one of two ways. Either it
  returns, and then every seat's bid is the bid its agent returned, it lies in
  \<open>[0, round_num]\<close>, and nothing but the bids changed. Or it raises ValueError at the first
  seat \<open>k\<close> whose agent returned a bid out of range: the bids of the seats before \<open>k\<close> are
  recorded, the bid of seat \<open>k\<close> and of every later seat is not (those entries are as
  they were). So it raises exactly when some agent that is asked returns a bid out of range.
\<close>

theorem bidding_phase_validates:
  assumes "length agents = n" and "length (hands s) = n" and "length (bids s) = n"
  shows "(\<exists>s'. bidding_phase n agents s = Inr s' \<and> s' = s\<lparr>bids := bids s'\<rparr>
            \<and> (\<forall>p<n. bids s' ! p = Some (returned_bid agents s' p)
                    \<and> bid_in_range s (returned_bid agents s' p)))
       \<or> (\<exists>s' k. bidding_phase n agents s = Inl (ValueError, s') \<and> k < n
            \<and> s' = s\<lparr>bids := bids s'\<rparr>
            \<and> (\<forall>p<k. bids s' ! p = Some (returned_bid agents s' p)
                    \<and> bid_in_range s (returned_bid agents s' p))
            \<and> \<not> bid_in_range s (returned_bid agents s' k)
            \<and> (\<forall>q. k \<le> q \<and> q < n \<longrightarrow> bids s' ! q = bids s ! q))"
proof -
  from bidding_loop_upt [OF assms le0]
  show ?thesis
  proof (elim disjE exE conjE)
    fix s'
    assume "bidding_loop agents [0..<n] s = Inr s'" and "s' = s\<lparr>bids := bids s'\<rparr>"
      and "\<forall>p. 0 \<le> p \<and> p < n \<longrightarrow> bids s' ! p = Some (returned_bid agents s' p)
                    \<and> bid_in_range s (returned_bid agents s' p)"
    then show ?thesis by (intro disjI1 exI [of _ s']) (simp add: bidding_phase_def)
  next
    fix s' k
    assume "bidding_loop agents [0..<n] s = Inl (ValueError, s')" and "k < n"
      and "s' = s\<lparr>bids := bids s'\<rparr>"
      and "\<forall>p. 0 \<le> p \<and> p < k \<longrightarrow> bids s' ! p = Some (returned_bid agents s' p)
                    \<and> bid_in_range s (returned_bid agents s' p)"
      and "\<not> bid_in_range s (returned_bid agents s' k)"
      and "\<forall>q. k \<le> q \<and> q < n \<longrightarrow> bids s' ! q = bids s ! q"
    then show ?thesis by (intro disjI2 exI [of _ s'] exI [of _ k]) (simp add: bidding_phase_def)
  qed
qed

theorem bidding_phase_validates_witness:
  "length [fixed_agent 1, fixed_agent 2, fixed_agent 0] = 3
   \<and> length (hands unbid_state) = 3 \<and> length (bids unbid_state) = 3
   \<and> bidding_phase 3 [fixed_agent 1, fixed_agent 2, fixed_agent 0] unbid_state
       = Inl (ValueError, unbid_state\<lparr>bids := [Some 1, None, None]\<rparr>)
   \<and> bidding_phase 3 [fixed_agent 1, fixed_agent 0, fixed_agent 0] unbid_state
       = Inr (unbid_state\<lparr>bids := [Some 1, Some 0, Some 0]\<rparr>)"
proof -
  have h: "length [fixed_agent 1, fixed_agent 2, fixed_agent 0] = 3"
    "length (hands unbid_state) = 3" "length (bids unbid_state) = 3"
    by (simp_all add: unbid_state_def)
  have bad: "bidding_phase 3 [fixed_agent 1, fixed_agent 2, fixed_agent 0] unbid_state
       = Inl (ValueError, unbid_state\<lparr>bids := [Some 1, None, None]\<rparr>)"
    by (simp add: bidding_phase_def unbid_state_def fixed_agent_def upt_rec)
  have good: "bidding_phase 3 [fixed_agent 1, fixed_agent 0, fixed_agent 0] unbid_state
       = Inr (unbid_state\<lparr>bids := [Some 1, Some 0, Some 0]\<rparr>)"
    by (simp add: bidding_phase_def unbid_state_def fixed_agent_def upt_rec)
  from bidding_phase_validates [OF h] h bad good show ?thesis by simp
qed

section \<open>Trick play\<close>

text \<open>
  C2 fails on the code. The led suit is only set from the first or the second card of a
  trick. After two Jesters the five of Hearts of seat 2 does not set it: the loop ends with
  \<open>led_suit = None\<close>; seat 3, which holds the two of Hearts, is offered its whole hand
  and plays the King of Spades (with Hearts led only the two of Hearts would be legal); and
  the trick goes to seat 0, which played a Jester.
\<close>

theorem led_suit_unset_after_two_jesters:
  "play_cards 4 [fixed_agent 0, fixed_agent 0, fixed_agent 1, last_card_agent 1] [0..<4]
       (jester_lead_state\<lparr>current_trick := []\<rparr>, None)
     = Inr (jester_lead_state
              \<lparr>hands := [[Card CLUBS 3], [Card CLUBS 4], [Card DIAMONDS 6], [Card HEARTS 2]],
               current_trick := [(0, Card JESTER 0), (1, Card JESTER 0),
                                 (2, Card HEARTS 5), (3, Card SPADES 13)]\<rparr>,
            None)
   \<and> get_valid_plays [Card HEARTS 2, Card SPADES 13] (Some HEARTS) = [Card HEARTS 2]
   \<and> play_trick 4 [fixed_agent 0, fixed_agent 0, fixed_agent 1, last_card_agent 1] jester_lead_state
     = Inr (jester_lead_state
              \<lparr>hands := [[Card CLUBS 3], [Card CLUBS 4], [Card DIAMONDS 6], [Card HEARTS 2]],
               current_trick := [(0, Card JESTER 0), (1, Card JESTER 0),
                                 (2, Card HEARTS 5), (3, Card SPADES 13)],
               tricks_won := [1, 0, 0, 0]\<rparr>)"
  by (simp add: play_trick_def jester_lead_state_def fixed_agent_def last_card_agent_def
        get_valid_plays_def determine_trick_winner_def py_max_def upt_rec Let_def)

section \<open>A full round\<close>

lemma get_valid_plays_subset: "set (get_valid_plays hand led) \<subseteq> set hand"
  by (auto simp: get_valid_plays_def Let_def split: option.splits)

lemma seat_inj_le:
  assumes "i \<le> j" and "j < n" and "(L + i) mod n = (L + j) mod (n::nat)"
  shows "i = j"
proof (rule ccontr)
  assume "i \<noteq> j"
  with assms(1) have pos: "0 < j - i" by simp
  have "L + i \<le> L + j" using assms(1) by simp
  from mod_eq_dvd_iff_nat [OF this, of n] assms(3) have "n dvd (L + j) - (L + i)" by simp
  then have "n dvd j - i" by simp
  moreover have "j - i < n" using assms(2) by simp
  ultimately show False using nat_dvd_not_less [OF pos] by blast
qed

lemma seat_inj:
  assumes "i < n" and "j < n" and "(L + i) mod n = (L + j) mod (n::nat)"
  shows "i = j"
proof (cases "i \<le> j")
  case True
  then show ?thesis using assms seat_inj_le by blast
next
  case False
  then have "j \<le> i" by simp
  then have "j = i" using assms seat_inj_le [of j i n L] by simp
  then show ?thesis by simp
qed

lemma seats_cover:
  assumes "p < (n::nat)"
  shows "p \<in> (\<lambda>i. (L + i) mod n) ` set [0..<n]"
proof -
  let ?f = "\<lambda>i. (L + i) mod n"
  have inj: "inj_on ?f {0..<n}" by (rule inj_onI) (auto dest: seat_inj)
  have sub: "?f ` {0..<n} \<subseteq> {0..<n}" using assms by auto
  have "card (?f ` {0..<n}) = card {0..<n}" using inj by (rule card_image)
  with sub have "?f ` {0..<n} = {0..<n}" by (intro card_subset_eq) simp_all
  then show ?thesis using assms by simp
qed

lemma sum_list_bump:
  "w < length xs \<Longrightarrow> sum_list (xs[w := xs ! w + 1]) = sum_list xs + (1::int)"
proof (induction xs arbitrary: w)
  case Nil
  then show ?case by simp
next
  case (Cons x xs)
  then show ?case by (cases w) auto
qed

lemma play_cards_inv:
  assumes "play_cards n agents is (s, led) = Inr (s', led')"
    and "length (hands s) = n" and "distinct is" and "\<forall>i\<in>set is. i < n"
  shows "length (hands s') = n \<and> trick_leader s' = trick_leader s \<and> tricks_won s' = tricks_won s
       \<and> (\<forall>p<n. length (hands s' ! p)
                  + (if p \<in> (\<lambda>i. (trick_leader s + i) mod n) ` set is then 1 else 0)
                = length (hands s ! p))"
  using assms
proof (induction "is" arbitrary: s led)
  case Nil
  then show ?case by simp
next
  case (Cons i "is")
  let ?p = "(trick_leader s + i) mod n"
  let ?valid = "get_valid_plays (hands s ! ?p) led"
  let ?c = "play (agents ! ?p) (hands s ! ?p) ?valid (current_trick s) (trump_suit s) led ?p s"
  let ?s1 = "s\<lparr>hands := (hands s)[?p := remove1 ?c (hands s ! ?p)],
                current_trick := current_trick s @ [(?p, ?c)]\<rparr>"
  from Cons.prems(1) have ok: "?c \<in> set ?valid"
    by (auto simp: Let_def split: if_splits)
  from Cons.prems(1) obtain led1 where rec: "play_cards n agents is (?s1, led1) = Inr (s', led')"
    by (auto simp: Let_def split: if_splits)
  have i: "i < n" and pn: "?p < n" using Cons.prems(4) by auto
  have mem: "?c \<in> set (hands s ! ?p)" using ok get_valid_plays_subset by blast
  have len1: "length (hands ?s1) = n" using Cons.prems(2) by simp
  from Cons.IH [OF rec len1] Cons.prems(3,4)
  have ih: "length (hands s') = n" "trick_leader s' = trick_leader s" "tricks_won s' = tricks_won s"
    and ihl: "\<forall>p<n. length (hands s' ! p)
                  + (if p \<in> (\<lambda>i. (trick_leader s + i) mod n) ` set is then 1 else 0)
                = length (hands ?s1 ! p)"
    by simp_all
  have fresh: "?p \<notin> (\<lambda>i. (trick_leader s + i) mod n) ` set is"
  proof
    assume "?p \<in> (\<lambda>i. (trick_leader s + i) mod n) ` set is"
    then obtain j where j: "j \<in> set is" "(trick_leader s + i) mod n = (trick_leader s + j) mod n" by auto
    with Cons.prems(4) i have "i = j" using seat_inj [of i n j "trick_leader s"] by simp
    with j(1) Cons.prems(3) show False by simp
  qed
  have "length (hands s' ! p)
          + (if p \<in> (\<lambda>i. (trick_leader s + i) mod n) ` set (i # is) then 1 else 0)
        = length (hands s ! p)" if "p < n" for p
  proof (cases "p = ?p")
    case True
    have "length (hands ?s1 ! ?p) + 1 = length (hands s ! ?p)"
      using mem pn Cons.prems(2) by (simp add: length_remove1) (metis One_nat_def Suc_pred length_pos_if_in_set)
    moreover have "length (hands s' ! ?p) = length (hands ?s1 ! ?p)"
      using ihl [rule_format, OF pn] fresh by simp
    ultimately show ?thesis using True by simp
  next
    case False
    then have "hands ?s1 ! p = hands s ! p" by simp
    moreover have "p \<in> (\<lambda>i. (trick_leader s + i) mod n) ` set (i # is)
      \<longleftrightarrow> p \<in> (\<lambda>i. (trick_leader s + i) mod n) ` set is" using False by auto
    ultimately show ?thesis using ihl that by simp
  qed
  with ih show ?case by simp
qed

lemma play_trick_inv:
  assumes "play_trick n agents s = Inr s'" and "length (hands s) = n"
  shows "length (hands s') = n \<and> (\<forall>p<n. length (hands s' ! p) + 1 = length (hands s ! p))
       \<and> sum_list (tricks_won s') = sum_list (tricks_won s) + 1"
proof -
  from assms(1) obtain s1 led
    where pc: "play_cards n agents [0..<n] (s\<lparr>current_trick := []\<rparr>, None) = Inr (s1, led)"
    by (cases "play_cards n agents [0..<n] (s\<lparr>current_trick := []\<rparr>, None)")
       (auto simp: play_trick_def)
  from assms(1) pc obtain w
    where dw: "determine_trick_winner (current_trick s1) led (trump_suit s1) = Inr w"
    by (cases "determine_trick_winner (current_trick s1) led (trump_suit s1)")
       (auto simp: play_trick_def)
  from assms(1) pc dw have w: "w < length (tricks_won s1)"
    and s': "s' = s1\<lparr>tricks_won := (tricks_won s1)[w := tricks_won s1 ! w + 1], trick_leader := w\<rparr>"
    by (auto simp: play_trick_def split: if_splits)
  have "length (hands (s\<lparr>current_trick := []\<rparr>)) = n" using assms(2) by simp
  from play_cards_inv [OF pc this]
  have len: "length (hands s1) = n" and tw: "tricks_won s1 = tricks_won s"
    and hl: "\<forall>p<n. length (hands s1 ! p)
                  + (if p \<in> (\<lambda>i. (trick_leader s + i) mod n) ` set [0..<n] then 1 else 0)
                = length (hands s ! p)"
    by simp_all
  have "\<forall>p<n. length (hands s1 ! p) + 1 = length (hands s ! p)"
    using hl seats_cover [of _ n "trick_leader s"] by simp
  moreover have "sum_list (tricks_won s') = sum_list (tricks_won s) + 1"
    using sum_list_bump [OF w] tw s' by simp
  ultimately show ?thesis using len s' by simp
qed

lemma play_tricks_inv:
  assumes "play_tricks n agents k s = Inr s'" and "length (hands s) = n"
  shows "length (hands s') = n \<and> (\<forall>p<n. length (hands s' ! p) + k = length (hands s ! p))
       \<and> sum_list (tricks_won s') = sum_list (tricks_won s) + int k"
  using assms
proof (induction k arbitrary: s)
  case 0
  then show ?case by simp
next
  case (Suc k)
  from Suc.prems(1) obtain s1 where t: "play_trick n agents s = Inr s1"
    and r: "play_tricks n agents k s1 = Inr s'"
    by (auto split: sum.splits)
  from play_trick_inv [OF t Suc.prems(2)]
  have 1: "length (hands s1) = n" "\<forall>p<n. length (hands s1 ! p) + 1 = length (hands s ! p)"
    "sum_list (tricks_won s1) = sum_list (tricks_won s) + 1" by simp_all
  from Suc.IH [OF r 1(1)]
  have 2: "length (hands s') = n" "\<forall>p<n. length (hands s' ! p) + k = length (hands s1 ! p)"
    "sum_list (tricks_won s') = sum_list (tricks_won s1) + int k" by simp_all
  have "length (hands s' ! p) + Suc k = length (hands s ! p)" if "p < n" for p
    using 1(2) 2(2) that by (metis add_Suc_right Suc_eq_plus1 add_Suc)
  with 1 2 show ?case by simp
qed

lemma bidding_loop_only_bids:
  "bidding_loop agents ps s = Inr s' \<Longrightarrow> hands s' = hands s \<and> tricks_won s' = tricks_won s"
proof (induction ps arbitrary: s)
  case Nil
  then show ?case by simp
next
  case (Cons p ps)
  let ?b = "bid (agents ! p) (hands s ! p) (trump_suit s) (round_num s) p (take p (bids s))"
  from Cons.prems have "bidding_loop agents ps (s\<lparr>bids := (bids s)[p := Some ?b]\<rparr>) = Inr s'"
    by (auto simp: Let_def split: if_splits)
  from Cons.IH [OF this] show ?case by simp
qed

lemma deal_players_room:
  "deal_players deck ps (hs, idx) = Inr r \<Longrightarrow> idx \<le> length deck
   \<Longrightarrow> idx + length ps \<le> length deck"
proof (induction ps arbitrary: hs idx)
  case Nil
  then show ?case by simp
next
  case (Cons p ps)
  from Cons.prems have lt: "idx < length deck"
    and "deal_players deck ps (hs[p := hs ! p @ [deck ! idx]], idx + 1) = Inr r"
    by (auto split: if_splits)
  from Cons.IH [OF this(2)] lt show ?case by simp
qed

lemma deal_rounds_room:
  assumes "deal_rounds deck n k (hs, m * n) = Inr r" and "length hs = n" and "m * n \<le> length deck"
  shows "(m + k) * n \<le> length deck"
  using assms
proof (induction k arbitrary: hs m)
  case 0
  then show ?case by simp
next
  case (Suc k)
  from Suc.prems(1) obtain st where dp: "deal_players deck [0..<n] (hs, m * n) = Inr st"
    and dr: "deal_rounds deck n k st = Inr r"
    by (auto split: sum.splits)
  from deal_players_room [OF dp Suc.prems(3)] have room: "m * n + (n - 0) \<le> length deck" by simp
  from deal_players_upt [OF Suc.prems(2) _ room] dp obtain hs1
    where st: "st = (hs1, m * n + (n - 0))" and l1: "length hs1 = n" by auto
  have "(Suc m + k) * n \<le> length deck"
    using Suc.IH [of hs1 "Suc m"] dr st l1 room by (simp add: add.commute)
  then show ?case by simp
qed

lemma shuffle_and_deal_lengths:
  assumes "shuffle_and_deal rs n r = Inr ((hs, tc, rest), rs')"
  shows "length hs = n \<and> (\<forall>p<n. length (hs ! p) = r)"
proof -
  obtain deck rs1 where sh: "shuffle rs create_standard_deck = (deck, rs1)"
    by (cases "shuffle rs create_standard_deck")
  from assms sh obtain idx where dr: "deal_rounds deck n r (replicate n [], 0) = Inr (hs, idx)"
    by (auto simp: shuffle_and_deal_def split: sum.splits)
  have "(0 + r) * n \<le> length deck"
    using deal_rounds_room [of deck n r "replicate n []" 0] dr by simp
  then have "r * n \<le> length deck" by simp
  from deal_rounds_fresh [OF this] dr show ?thesis by auto
qed

text \<open>
  C8. When \<open>_play_round\<close> returns (no exception from the deal, the bidding, a play or
  the scoring), every hand is empty and the tricks won add up to \<open>round_num\<close>.
\<close>

theorem play_round_conserves:
  assumes "play_round rs n sc r agents = Inr (s, sc', rs')"
  shows "length (hands s) = n \<and> (\<forall>p<n. hands s ! p = []) \<and> sum_list (tricks_won s) = int r"
proof -
  from assms obtain hs tc rest rs1
    where deal: "shuffle_and_deal rs n r = Inr ((hs, tc, rest), rs1)"
    by (cases "shuffle_and_deal rs n r") (auto simp: play_round_def)
  let ?s0 = "\<lparr>num_players = n, round_num = r, hands = hs, trump_card = tc,
              trump_suit = get_trump_suit tc, bids = replicate n None,
              tricks_won = replicate n 0, scores = sc, current_trick = [],
              trick_leader = 0\<rparr>"
  from assms deal obtain s1 where bp: "bidding_phase n agents ?s0 = Inr s1"
    by (cases "bidding_phase n agents ?s0") (auto simp: play_round_def)
  from assms deal bp obtain s2 where pt: "play_tricks n agents r s1 = Inr s2"
    by (cases "play_tricks n agents r s1") (auto simp: play_round_def)
  from assms deal bp pt have s: "s = s2"
    by (auto simp: play_round_def split: sum.splits)
  from shuffle_and_deal_lengths [OF deal]
  have lh: "length hs = n" and each: "\<forall>p<n. length (hs ! p) = r" by simp_all
  from bidding_loop_only_bids [of agents "[0..<n]" ?s0 s1] bp
  have h1: "hands s1 = hs" and t1: "tricks_won s1 = replicate n 0"
    by (simp_all add: bidding_phase_def)
  have l1: "length (hands s1) = n" using h1 lh by simp
  from play_tricks_inv [OF pt l1]
  have "length (hands s2) = n" and dec: "\<forall>p<n. length (hands s2 ! p) + r = length (hands s1 ! p)"
    and tw: "sum_list (tricks_won s2) = sum_list (tricks_won s1) + int r" by simp_all
  moreover have "\<forall>p<n. hands s2 ! p = []" using dec each h1 by simp
  moreover have "sum_list (replicate n (0::int)) = 0" by (induction n) simp_all
  then have "sum_list (tricks_won s2) = int r" using tw t1 by simp
  ultimately show ?thesis using s by simp
qed

theorem play_round_conserves_witness:
  "play_round [5, 3, 8, 1, 22, 4] 4 [0, 0, 0, 0] 2
     [fixed_agent 0, fixed_agent 1, fixed_agent 0, last_card_agent 1]
   = Inr (\<lparr>num_players = 4, round_num = 2, hands = [[], [], [], []],
           trump_card = Some (Card HEARTS 2), trump_suit = Some HEARTS,
           bids = [Some 0, Some 1, Some 0, Some 1], tricks_won = [0, 0, 2, 0],
           scores = [0, 0, 0, 0],
           current_trick = [(2, Card WIZARD 0), (3, Card SPADES 8), (0, Card SPADES 13), (1, Card WIZARD 0)],
           trick_leader = 2\<rparr>,
         [20, - 10, - 20, - 10], [])
   \<and> sum_list [0, 0, 2, 0] = int 2"
proof -
  have run: "play_round [5, 3, 8, 1, 22, 4] 4 [0, 0, 0, 0] 2
     [fixed_agent 0, fixed_agent 1, fixed_agent 0, last_card_agent 1]
   = Inr (\<lparr>num_players = 4, round_num = 2, hands = [[], [], [], []],
           trump_card = Some (Card HEARTS 2), trump_suit = Some HEARTS,
           bids = [Some 0, Some 1, Some 0, Some 1], tricks_won = [0, 0, 2, 0],
           scores = [0, 0, 0, 0],
           current_trick = [(2, Card WIZARD 0), (3, Card SPADES 8), (0, Card SPADES 13), (1, Card WIZARD 0)],
           trick_leader = 2\<rparr>,
         [20, - 10, - 20, - 10], [])"
    by code_simp
  from play_round_conserves [OF run] run show ?thesis by simp
qed

section \<open>The determinizer\<close>

lemma unknown_empty:
  "filter (\<lambda>c. c \<notin> known_cards final_round_state 0) create_standard_deck = []"
  by code_simp

text \<open>
  What the determinizer does on every state: the deciding seat keeps its hand, and no other
  seat is ever given a card that some seat really holds.
\<close>

lemma redistribute_slices:
  assumes "redistribute st pidx U is (hs, idx) = Inr hs'"
  shows "length hs' = length hs
       \<and> (\<forall>j<length hs. (j \<in> set is \<and> j \<noteq> pidx \<longrightarrow> set (hs' ! j) \<subseteq> set U)
                        \<and> (\<not> (j \<in> set is \<and> j \<noteq> pidx) \<longrightarrow> hs' ! j = hs ! j))"
  using assms
proof (induction "is" arbitrary: hs idx)
  case Nil
  then show ?case by simp
next
  case (Cons i "is")
  show ?case
  proof (cases "i = pidx")
    case True
    with Cons.prems have "redistribute st pidx U is (hs, idx) = Inr hs'" by simp
    from Cons.IH [OF this] True show ?thesis by auto
  next
    case False
    let ?slice = "take (length (hands st ! i)) (drop idx U)"
    let ?hs1 = "hs[i := ?slice]"
    from Cons.prems False
    have "redistribute st pidx U is (?hs1, idx + length (hands st ! i)) = Inr hs'"
      by (auto simp: Let_def split: if_splits)
    from Cons.IH [OF this]
    have len: "length hs' = length hs"
      and ih: "\<forall>j<length hs. (j \<in> set is \<and> j \<noteq> pidx \<longrightarrow> set (hs' ! j) \<subseteq> set U)
                        \<and> (\<not> (j \<in> set is \<and> j \<noteq> pidx) \<longrightarrow> hs' ! j = ?hs1 ! j)"
      by simp_all
    have sl: "set ?slice \<subseteq> set U"
      by (meson set_take_subset set_drop_subset subset_trans)
    have "(j \<in> set (i # is) \<and> j \<noteq> pidx \<longrightarrow> set (hs' ! j) \<subseteq> set U)
           \<and> (\<not> (j \<in> set (i # is) \<and> j \<noteq> pidx) \<longrightarrow> hs' ! j = hs ! j)" if "j < length hs" for j
    proof (cases "j \<in> set is \<and> j \<noteq> pidx")
      case True
      then show ?thesis using ih that by simp
    next
      case nin: False
      then have eq: "hs' ! j = ?hs1 ! j" using ih that by blast
      show ?thesis
      proof (cases "j = i")
        case True
        then show ?thesis using eq sl that False by simp
      next
        case False
        then show ?thesis using eq nin by auto
      qed
    qed
    with len show ?thesis by blast
  qed
qed

lemma determinize_avoids_held_cards:
  assumes "determinize_state rs st pidx = Inr (st', rs')"
    and "j < num_players st" and "j < length (hands st)" and "j \<noteq> pidx"
  shows "hands st' ! pidx = hands st ! pidx
       \<and> set (hands st' ! j) \<inter> (\<Union>h\<in>set (hands st). set h) = {}"
proof -
  let ?unknown = "filter (\<lambda>c. c \<notin> known_cards st pidx) create_standard_deck"
  obtain U rs1 where sh: "shuffle rs ?unknown = (U, rs1)" by (cases "shuffle rs ?unknown")
  from assms(1) have p: "pidx < length (hands st)"
    by (auto simp: determinize_state_def split: if_splits)
  from assms(1) sh p obtain hs
    where red: "redistribute st pidx U [0..<num_players st] (hands st, 0) = Inr hs"
      and st': "st' = st\<lparr>hands := hs\<rparr>"
    by (auto simp: determinize_state_def split: sum.splits)
  from redistribute_slices [OF red] assms(2-4) p
  have own: "hs ! pidx = hands st ! pidx" and sub: "set (hs ! j) \<subseteq> set U" by auto
  have "mset U = mset ?unknown" using shuffle_perm [of rs ?unknown] sh by simp
  then have "set U = set ?unknown" by (metis set_mset_mset)
  then have unk: "set U \<inter> known_cards st pidx = {}" by auto
  have "(\<Union>h\<in>set (hands st). set h) \<subseteq> known_cards st pidx"
    by (auto simp: known_cards_def Let_def)
  with sub unk have "set (hs ! j) \<inter> (\<Union>h\<in>set (hands st). set h) = {}" by blast
  with own st' show ?thesis by simp
qed

text \<open>
  The final-round state is one that the deal produces: with these draws the shuffle leaves
  the deck in its initial order.
\<close>

lemma final_round_is_dealt:
  "shuffle_and_deal (rev [1..<60]) 3 20 = Inr ((hands final_round_state, None, []), [])"
  by code_simp

text \<open>
  C1 fails on the code. The determinizer counts the hands of the other seats among the known
  cards, so it samples only from cards that nobody holds. In the final round of a
  three-player game every card is in a hand: nothing is left to sample, and whatever the
  shuffle does, seats 1 and 2 are given empty hands in place of their 20 cards. The sampled
  state then holds 20 cards in all, not the deck.
\<close>

theorem determinize_final_round:
  "determinize_state rs final_round_state 0
     = Inr (final_round_state\<lparr>hands := [hands final_round_state ! 0, [], []]\<rparr>, rs)
   \<and> length (hands final_round_state ! 1) = 20 \<and> length (hands final_round_state ! 2) = 20"
proof -
  have len: "length (hands final_round_state) = 3" and np: "num_players final_round_state = 3"
    by (simp_all add: final_round_state_def)
  have red: "redistribute final_round_state 0 [] [0..<3] (hands final_round_state, 0)
               = Inr [hands final_round_state ! 0, [], []]"
    by code_simp
  have "determinize_state rs final_round_state 0
     = Inr (final_round_state\<lparr>hands := [hands final_round_state ! 0, [], []]\<rparr>, rs)"
    by (simp add: determinize_state_def unknown_empty shuffle_def red np len)
  moreover have "length (hands final_round_state ! 1) = 20" "length (hands final_round_state ! 2) = 20"
    by (simp_all add: final_round_state_def)
  ultimately show ?thesis by simp
qed

section \<open>Expansion of the search tree\<close>

lemma apply_action_ok:
  assumes "pidx < length (hands st)"
  shows "\<exists>cs. apply_action st a pidx = Inr cs \<and> length (hands cs) = length (hands st)
            \<and> bids cs = bids st \<and> tricks_won cs = tricks_won st"
  using assms by (simp add: apply_action_def)

lemma backpropagate_child_of_root:
  assumes "parent (t ! n) = Some 0" and "parent (t ! 0) = None" and "n \<noteq> 0"
  shows "backpropagate t (Some n) v
    = Some (t[n := (t ! n)\<lparr>visits := visits (t ! n) + 1, total_value := total_value (t ! n) + v\<rparr>,
              0 := (t ! 0)\<lparr>visits := visits (t ! 0) + 1, total_value := total_value (t ! 0) + v\<rparr>])"
proof -
  let ?t1 = "t[n := (t ! n)\<lparr>visits := visits (t ! n) + 1, total_value := total_value (t ! n) + v\<rparr>]"
  have root: "?t1 ! 0 = t ! 0" using assms(3) by simp
  have "backpropagate t (Some n) v = backpropagate ?t1 (Some 0) v"
    by (subst backpropagate.simps) (simp add: assms(1))
  also have "\<dots> = backpropagate (?t1[0 := (?t1 ! 0)\<lparr>visits := visits (?t1 ! 0) + 1,
                      total_value := total_value (?t1 ! 0) + v\<rparr>]) None v"
    using assms by (subst backpropagate.simps) simp
  also have "\<dots> = Some (?t1[0 := (?t1 ! 0)\<lparr>visits := visits (?t1 ! 0) + 1,
                      total_value := total_value (?t1 ! 0) + v\<rparr>])"
    by (subst backpropagate.simps) simp
  finally show ?thesis using assms(3) by simp
qed

lemma simulation_expands_root:
  assumes tree: "tree \<noteq> []"
    and root: "state (tree ! 0) = st" "parent (tree ! 0) = None" "player_idx (tree ! 0) = pidx"
    and more: "untried_actions (tree ! 0) \<noteq> []"
    and live: "\<not> list_all (\<lambda>hand. length hand = 0) (hands st)"
    and seat: "pidx < length (hands st)" "pidx < length (bids st)" "pidx < length (tricks_won st)"
    and bid: "bids st ! pidx = Some b"
  shows "\<exists>tree'. simulation c pidx st tree = Some (Inr tree')
       \<and> length tree' = Suc (length tree)
       \<and> state (tree' ! 0) = st \<and> parent (tree' ! 0) = None \<and> player_idx (tree' ! 0) = pidx
       \<and> untried_actions (tree' ! 0) = butlast (untried_actions (tree ! 0))
       \<and> children (tree' ! 0) = children (tree ! 0) @ [length tree]
       \<and> action (tree' ! length tree) = Some (last (untried_actions (tree ! 0)))
       \<and> apply_action st (last (untried_actions (tree ! 0))) pidx = Inr (state (tree' ! length tree))
       \<and> untried_actions (tree' ! length tree) = hands (state (tree' ! length tree)) ! pidx
       \<and> (\<forall>i. 0 < i \<and> i < length tree \<longrightarrow> tree' ! i = tree ! i)"
proof -
  let ?nd = "tree ! 0"
  let ?a = "last (untried_actions ?nd)"
  have pos: "0 < length tree" using tree by simp
  have sel: "select_loop c tree 0 st = Some (Inr (0, st))"
    using more by (subst select_loop.simps) (simp add: is_fully_expanded_def)
  from apply_action_ok [OF seat(1), of ?a] obtain cs
    where ap: "apply_action st ?a pidx = Inr cs" and lc: "length (hands cs) = length (hands st)"
      and bc: "bids cs = bids st" and tc: "tricks_won cs = tricks_won st" by blast
  let ?child = "\<lparr>state = cs, parent = Some 0, action = Some ?a, children = [], visits = 0,
                  total_value = 0, untried_actions = hands cs ! pidx, player_idx = pidx\<rparr>"
  let ?root1 = "?nd\<lparr>untried_actions := butlast (untried_actions ?nd),
                     children := children ?nd @ [length tree]\<rparr>"
  let ?t1 = "tree[0 := ?root1] @ [?child]"
  have ex: "expand tree 0 st = Inr (?t1, length tree)"
    using more ap lc seat(1) root(3) by (simp add: expand_def get_valid_actions_def Let_def)
  have nth_new: "?t1 ! length tree = ?child" by (simp add: nth_append)
  have nth_root: "?t1 ! 0 = ?root1" using pos by (simp add: nth_append)
  have apn: "apply_node_action ?t1 (length tree) st = Inr cs"
    using ap by (simp add: apply_node_action_def nth_new)
  have expn: "expansion tree 0 st = Inr (?t1, length tree, cs)"
    using more live root(1) ex apn
    by (simp add: expansion_def is_terminal_def is_fully_expanded_def)
  define v where "v = score_round b (tricks_won st ! pidx)"
  have sim: "simulate cs pidx = Inr v"
    using seat bid bc tc by (simp add: simulate_def score_round_def v_def Let_def)
  let ?t3 = "?t1[length tree := (?t1 ! length tree)\<lparr>visits := visits (?t1 ! length tree) + 1,
                 total_value := total_value (?t1 ! length tree) + real_of_int v\<rparr>,
               0 := (?t1 ! 0)\<lparr>visits := visits (?t1 ! 0) + 1,
                 total_value := total_value (?t1 ! 0) + real_of_int v\<rparr>]"
  have bp: "backpropagate ?t1 (Some (length tree)) (real_of_int v) = Some ?t3"
  proof (rule backpropagate_child_of_root)
    show "parent (?t1 ! length tree) = Some 0" by (simp add: nth_new)
    show "parent (?t1 ! 0) = None" using root(2) by (simp add: nth_root)
    show "length tree \<noteq> 0" using tree by simp
  qed
  have res: "simulation c pidx st tree = Some (Inr ?t3)"
    by (simp only: simulation_def sel expn sim bp option.case sum.case prod.case option.map)
  have l3: "length ?t3 = Suc (length tree)" by simp
  have r3: "?t3 ! 0 = ?root1\<lparr>visits := visits ?root1 + 1,
                 total_value := total_value ?root1 + real_of_int v\<rparr>"
    using pos by (simp add: nth_append)
  have n3: "?t3 ! length tree = ?child\<lparr>visits := visits ?child + 1,
                 total_value := total_value ?child + real_of_int v\<rparr>"
    using pos by (simp add: nth_append)
  have f3: "\<forall>i. 0 < i \<and> i < length tree \<longrightarrow> ?t3 ! i = tree ! i"
    by (simp add: nth_append)
  show ?thesis
    apply (intro exI [of _ ?t3] conjI)
    subgoal by (rule res)
    subgoal by (rule l3)
    subgoal using root(1) by (simp only: r3) simp
    subgoal using root(2) by (simp only: r3) simp
    subgoal using root(3) by (simp only: r3) simp
    subgoal by (simp only: r3) simp
    subgoal by (simp only: r3) simp
    subgoal by (simp only: n3) simp
    subgoal using ap by (simp only: n3) simp
    subgoal by (simp only: n3) simp
    subgoal by (rule f3)
    done
qed

lemma drop_butlast_snoc:
  assumes "u \<noteq> []" and "n < length u"
  shows "rev (drop n u) = last u # rev (drop n (butlast u))"
proof -
  have "drop n u = drop n (butlast u @ [last u])" using assms(1) by simp
  also have "\<dots> = drop n (butlast u) @ [last u]" using assms(2) by simp
  finally show ?thesis by simp
qed

lemma run_expands_root:
  assumes "tree \<noteq> []"
    and "state (tree ! 0) = st" and "parent (tree ! 0) = None" and "player_idx (tree ! 0) = pidx"
    and "\<not> list_all (\<lambda>hand. length hand = 0) (hands st)"
    and "pidx < length (hands st)" and "pidx < length (bids st)" and "pidx < length (tricks_won st)"
    and "bids st ! pidx = Some b"
    and "k \<le> length (untried_actions (tree ! 0))"
    and "\<forall>ch\<in>set (children (tree ! 0)). 0 < ch \<and> ch < length tree"
  shows "\<exists>tree'. run_simulations c pidx st k tree = Some (Inr tree')
       \<and> untried_actions (tree' ! 0)
           = take (length (untried_actions (tree ! 0)) - k) (untried_actions (tree ! 0))
       \<and> map (\<lambda>ch. action (tree' ! ch)) (children (tree' ! 0))
           = map (\<lambda>ch. action (tree ! ch)) (children (tree ! 0))
             @ map Some (rev (drop (length (untried_actions (tree ! 0)) - k) (untried_actions (tree ! 0))))
       \<and> (\<forall>ch\<in>set (children (tree' ! 0)). ch \<in> set (children (tree ! 0))
              \<or> (\<exists>a. action (tree' ! ch) = Some a \<and> apply_action st a pidx = Inr (state (tree' ! ch))
                     \<and> untried_actions (tree' ! ch) = hands (state (tree' ! ch)) ! pidx))
       \<and> (\<forall>i. 0 < i \<and> i < length tree \<longrightarrow> tree' ! i = tree ! i)"
  using assms
proof (induction k arbitrary: tree)
  case 0
  then show ?case by simp
next
  case (Suc k)
  let ?u = "untried_actions (tree ! 0)"
  have ne: "?u \<noteq> []" using Suc.prems(10) by auto
  from simulation_expands_root [OF Suc.prems(1-4) ne Suc.prems(5-9), of c] obtain t1
    where s1: "simulation c pidx st tree = Some (Inr t1)"
      and l1: "length t1 = Suc (length tree)"
      and r1: "state (t1 ! 0) = st" "parent (t1 ! 0) = None" "player_idx (t1 ! 0) = pidx"
      and u1: "untried_actions (t1 ! 0) = butlast ?u"
      and c1: "children (t1 ! 0) = children (tree ! 0) @ [length tree]"
      and a1: "action (t1 ! length tree) = Some (last ?u)"
      and p1: "apply_action st (last ?u) pidx = Inr (state (t1 ! length tree))"
      and h1: "untried_actions (t1 ! length tree) = hands (state (t1 ! length tree)) ! pidx"
      and f1: "\<forall>i. 0 < i \<and> i < length tree \<longrightarrow> t1 ! i = tree ! i"
    by blast
  have ne1: "t1 \<noteq> []" using l1 by auto
  have k1: "k \<le> length (untried_actions (t1 ! 0))" using Suc.prems(10) u1 by simp
  have pos: "0 < length tree" using Suc.prems(1) by simp
  have kids1: "\<forall>ch\<in>set (children (t1 ! 0)). 0 < ch \<and> ch < length t1"
    using Suc.prems(11) c1 l1 pos by auto
  from Suc.IH [OF ne1 r1 Suc.prems(5-9) k1 kids1] obtain t2
    where s2: "run_simulations c pidx st k t1 = Some (Inr t2)"
      and u2: "untried_actions (t2 ! 0) = take (length (butlast ?u) - k) (butlast ?u)"
      and m2: "map (\<lambda>ch. action (t2 ! ch)) (children (t2 ! 0))
           = map (\<lambda>ch. action (t1 ! ch)) (children (t1 ! 0))
             @ map Some (rev (drop (length (butlast ?u) - k) (butlast ?u)))"
      and n2: "\<forall>ch\<in>set (children (t2 ! 0)). ch \<in> set (children (t1 ! 0))
              \<or> (\<exists>a. action (t2 ! ch) = Some a \<and> apply_action st a pidx = Inr (state (t2 ! ch))
                     \<and> untried_actions (t2 ! ch) = hands (state (t2 ! ch)) ! pidx)"
      and f2: "\<forall>i. 0 < i \<and> i < length t1 \<longrightarrow> t2 ! i = t1 ! i"
    unfolding u1 by blast
  let ?n = "length ?u - Suc k"
  have nlt: "?n < length ?u" using ne by simp
  have idx: "length (butlast ?u) - k = ?n" by simp
  have 1: "run_simulations c pidx st (Suc k) tree = Some (Inr t2)" using s1 s2 by simp
  have 2: "untried_actions (t2 ! 0) = take ?n ?u"
    using u2 nlt by (simp only: idx take_butlast)
  have old: "map (\<lambda>ch. action (t1 ! ch)) (children (tree ! 0))
              = map (\<lambda>ch. action (tree ! ch)) (children (tree ! 0))"
    using f1 Suc.prems(11) by simp
  have 3: "map (\<lambda>ch. action (t2 ! ch)) (children (t2 ! 0))
           = map (\<lambda>ch. action (tree ! ch)) (children (tree ! 0)) @ map Some (rev (drop ?n ?u))"
    using m2 old a1 drop_butlast_snoc [OF ne nlt] by (simp only: idx c1) simp
  have new: "t2 ! length tree = t1 ! length tree" using f2 l1 pos by simp
  have 4: "\<forall>ch\<in>set (children (t2 ! 0)). ch \<in> set (children (tree ! 0))
              \<or> (\<exists>a. action (t2 ! ch) = Some a \<and> apply_action st a pidx = Inr (state (t2 ! ch))
                     \<and> untried_actions (t2 ! ch) = hands (state (t2 ! ch)) ! pidx)"
  proof
    fix ch assume "ch \<in> set (children (t2 ! 0))"
    with n2 consider "ch \<in> set (children (tree ! 0))" | "ch = length tree"
      | "\<exists>a. action (t2 ! ch) = Some a \<and> apply_action st a pidx = Inr (state (t2 ! ch))
                     \<and> untried_actions (t2 ! ch) = hands (state (t2 ! ch)) ! pidx"
      using c1 by auto
    then show "ch \<in> set (children (tree ! 0))
              \<or> (\<exists>a. action (t2 ! ch) = Some a \<and> apply_action st a pidx = Inr (state (t2 ! ch))
                     \<and> untried_actions (t2 ! ch) = hands (state (t2 ! ch)) ! pidx)"
    proof cases
      case 2
      then show ?thesis using new a1 p1 h1 by simp
    qed blast+
  qed
  have 5: "\<forall>i. 0 < i \<and> i < length tree \<longrightarrow> t2 ! i = tree ! i"
    using f1 f2 l1 by simp
  from 1 2 3 4 5 show ?case by blast
qed

lemma expand_step:
  assumes "expand tree n sim_state = Inr (tree', ch)" and "n < length tree"
  shows "untried_actions (root_node st pidx valid_cards) = valid_cards
       \<and> untried_actions (tree ! n) \<noteq> []
       \<and> untried_actions (tree' ! n) = butlast (untried_actions (tree ! n))
       \<and> children (tree' ! n) = children (tree ! n) @ [ch]
       \<and> ch = length tree \<and> length tree' = Suc (length tree)
       \<and> action (tree' ! ch) = Some (last (untried_actions (tree ! n)))
       \<and> parent (tree' ! ch) = Some n
       \<and> apply_action sim_state (last (untried_actions (tree ! n))) (player_idx (tree ! n))
           = Inr (state (tree' ! ch))
       \<and> player_idx (tree ! n) < length (hands (state (tree' ! ch)))
       \<and> untried_actions (tree' ! ch) = hands (state (tree' ! ch)) ! player_idx (tree ! n)
       \<and> (\<forall>m<length tree. m \<noteq> n \<longrightarrow> tree' ! m = tree ! m)"
proof -
  let ?nd = "tree ! n"
  let ?a = "last (untried_actions ?nd)"
  from assms(1) have ne: "untried_actions ?nd \<noteq> []"
    by (auto simp: expand_def Let_def split: if_splits)
  from assms(1) ne obtain child_state
    where ap: "apply_action sim_state ?a (player_idx ?nd) = Inr child_state"
    by (cases "apply_action sim_state ?a (player_idx ?nd)") (auto simp: expand_def Let_def)
  from assms(1) ne ap obtain acts
    where ga: "get_valid_actions child_state (player_idx ?nd) = Inr acts"
    by (cases "get_valid_actions child_state (player_idx ?nd)") (auto simp: expand_def Let_def)
  from ga have acts: "player_idx ?nd < length (hands child_state)"
    "acts = hands child_state ! player_idx ?nd"
    by (auto simp: get_valid_actions_def split: if_splits)
  from assms(1) ne ap ga
  have t': "tree' = tree[n := ?nd\<lparr>untried_actions := butlast (untried_actions ?nd),
                                   children := children ?nd @ [length tree]\<rparr>]
                    @ [\<lparr>state = child_state, parent = Some n, action = Some ?a,
                        children = [], visits = 0, total_value = 0,
                        untried_actions = acts, player_idx = player_idx ?nd\<rparr>]"
    and ch: "ch = length tree"
    by (auto simp: expand_def Let_def)
  have "tree' ! n = ?nd\<lparr>untried_actions := butlast (untried_actions ?nd),
                          children := children ?nd @ [length tree]\<rparr>"
    using assms(2) by (simp add: t' nth_append)
  moreover have "tree' ! ch = \<lparr>state = child_state, parent = Some n, action = Some ?a,
                        children = [], visits = 0, total_value = 0,
                        untried_actions = acts, player_idx = player_idx ?nd\<rparr>"
    by (simp add: t' ch nth_append)
  moreover have "\<forall>m<length tree. m \<noteq> n \<longrightarrow> tree' ! m = tree ! m"
    by (simp add: t' nth_append)
  moreover have "length tree' = Suc (length tree)" by (simp add: t')
  ultimately show ?thesis using ne ap acts ch by (simp add: root_node_def)
qed

lemma follow_expand:
  "expand [root_node follow_state 1 [Card HEARTS 5, Card HEARTS 7]] 0 follow_state
     = Inr (follow_tree, 1)"
  by (simp add: expand_def root_node_def follow_state_def follow_tree_def apply_action_def
        get_valid_actions_def Let_def)

text \<open>
  C3, as stated, fails: a child created by expansion does not get the legal plays of its
  state. Seat 1 holds the five and seven of Hearts and the three of Spades, Hearts are led;
  the root's untried actions are the two Hearts. Expanding the root plays the seven of
  Hearts, and the child's untried actions are the whole remaining hand, the three of Spades
  included, where the valid-play filter allows the five of Hearts only.
\<close>

theorem child_actions_ignore_led_suit_counterexample:
  "get_valid_plays (hands follow_state ! 1) (Some HEARTS) = [Card HEARTS 5, Card HEARTS 7]
   \<and> expand [root_node follow_state 1 [Card HEARTS 5, Card HEARTS 7]] 0 follow_state
       = Inr (follow_tree, 1)
   \<and> untried_actions (follow_tree ! 1) = [Card HEARTS 5, Card SPADES 3]
   \<and> get_valid_plays (hands (state (follow_tree ! 1)) ! 1) (Some HEARTS) = [Card HEARTS 5]"
  using follow_expand
  by (simp add: follow_tree_def follow_state_def get_valid_plays_def)

text \<open>
  C3, as the code has it. The root's untried actions are the valid cards handed to the
  search. Every expansion, at whatever node, takes the last untried action of the node,
  applies it to the simulation state and appends one child that carries it; the child's
  untried actions are the deciding player's whole hand in the child's state; no other node
  changes. From the root, when some hand is not empty and the deciding seat has a bid, the
  first \<open>length valid_cards\<close> simulations each expand the root: afterwards the root has no
  untried action left and its children carry exactly the valid cards, last card first.
\<close>

theorem expansion_untried_actions:
  assumes "pidx < length (hands st)" and "pidx < length (bids st)"
    and "pidx < length (tricks_won st)" and "bids st ! pidx = Some b"
    and "\<not> list_all (\<lambda>hand. length hand = 0) (hands st)"
    and "expand tree n sim_state = Inr (tree', ch)" and "n < length tree"
  shows "untried_actions (root_node st pidx valid_cards) = valid_cards
       \<and> untried_actions (tree ! n) \<noteq> []
       \<and> untried_actions (tree' ! n) = butlast (untried_actions (tree ! n))
       \<and> children (tree' ! n) = children (tree ! n) @ [ch]
       \<and> action (tree' ! ch) = Some (last (untried_actions (tree ! n)))
       \<and> apply_action sim_state (last (untried_actions (tree ! n))) (player_idx (tree ! n))
           = Inr (state (tree' ! ch))
       \<and> untried_actions (tree' ! ch) = hands (state (tree' ! ch)) ! player_idx (tree ! n)
       \<and> (\<forall>m<length tree. m \<noteq> n \<longrightarrow> tree' ! m = tree ! m)
       \<and> (\<exists>t. run_simulations c pidx st (length valid_cards) [root_node st pidx valid_cards]
                 = Some (Inr t)
              \<and> untried_actions (t ! 0) = []
              \<and> map (\<lambda>k. action (t ! k)) (children (t ! 0)) = map Some (rev valid_cards)
              \<and> (\<forall>k\<in>set (children (t ! 0)).
                    \<exists>a. action (t ! k) = Some a \<and> apply_action st a pidx = Inr (state (t ! k))
                       \<and> untried_actions (t ! k) = hands (state (t ! k)) ! pidx))"
proof -
  let ?root = "root_node st pidx valid_cards"
  have r: "[?root] \<noteq> []" "state ([?root] ! 0) = st" "parent ([?root] ! 0) = None"
    "player_idx ([?root] ! 0) = pidx"
    by (simp_all add: root_node_def)
  have u: "untried_actions ([?root] ! 0) = valid_cards" "children ([?root] ! 0) = []"
    by (simp_all add: root_node_def)
  have k: "length valid_cards \<le> length (untried_actions ([?root] ! 0))"
    by (simp add: root_node_def)
  have kids: "\<forall>k\<in>set (children ([?root] ! 0)). 0 < k \<and> k < length [?root]"
    by (simp add: root_node_def)
  from run_expands_root [OF r assms(5) assms(1-4) k kids, of c]
  have run: "\<exists>t. run_simulations c pidx st (length valid_cards) [?root] = Some (Inr t)
              \<and> untried_actions (t ! 0) = []
              \<and> map (\<lambda>k. action (t ! k)) (children (t ! 0)) = map Some (rev valid_cards)
              \<and> (\<forall>k\<in>set (children (t ! 0)).
                    \<exists>a. action (t ! k) = Some a \<and> apply_action st a pidx = Inr (state (t ! k))
                       \<and> untried_actions (t ! k) = hands (state (t ! k)) ! pidx)"
    by (simp add: root_node_def)
  from expand_step [OF assms(6,7), of st pidx valid_cards] run
  show ?thesis by blast
qed

theorem expansion_untried_actions_witness:
  "1 < length (hands follow_state) \<and> 1 < length (bids follow_state)
   \<and> 1 < length (tricks_won follow_state) \<and> bids follow_state ! 1 = Some 1
   \<and> \<not> list_all (\<lambda>hand. length hand = 0) (hands follow_state)
   \<and> expand [root_node follow_state 1 [Card HEARTS 5, Card HEARTS 7]] 0 follow_state
       = Inr (follow_tree, 1)
   \<and> untried_actions (follow_tree ! 1) = hands (state (follow_tree ! 1)) ! 1
   \<and> (\<exists>t. run_simulations (141 / 100) 1 follow_state 2
             [root_node follow_state 1 [Card HEARTS 5, Card HEARTS 7]] = Some (Inr t)
          \<and> untried_actions (t ! 0) = []
          \<and> map (\<lambda>k. action (t ! k)) (children (t ! 0)) = [Some (Card HEARTS 7), Some (Card HEARTS 5)]
          \<and> (\<forall>k\<in>set (children (t ! 0)).
                \<exists>a. action (t ! k) = Some a \<and> apply_action follow_state a 1 = Inr (state (t ! k))
                   \<and> untried_actions (t ! k) = hands (state (t ! k)) ! 1))"
proof -
  have h: "1 < length (hands follow_state)" "1 < length (bids follow_state)"
    "1 < length (tricks_won follow_state)" "bids follow_state ! 1 = Some 1"
    "\<not> list_all (\<lambda>hand. length hand = 0) (hands follow_state)"
    by (simp_all add: follow_state_def)
  have n: "0 < length [root_node follow_state 1 [Card HEARTS 5, Card HEARTS 7]]" by simp
  note th = expansion_untried_actions [OF h follow_expand n,
      of "[Card HEARTS 5, Card HEARTS 7]" "141 / 100"]
  from th have "untried_actions (follow_tree ! 1)
      = hands (state (follow_tree ! 1))
        ! player_idx ([root_node follow_state 1 [Card HEARTS 5, Card HEARTS 7]] ! 0)"
    by blast
  then have a: "untried_actions (follow_tree ! 1) = hands (state (follow_tree ! 1)) ! 1"
    by (simp add: root_node_def)
  from th have "\<exists>t. run_simulations (141 / 100) 1 follow_state
             (length [Card HEARTS 5, Card HEARTS 7])
             [root_node follow_state 1 [Card HEARTS 5, Card HEARTS 7]] = Some (Inr t)
          \<and> untried_actions (t ! 0) = []
          \<and> map (\<lambda>k. action (t ! k)) (children (t ! 0))
              = map Some (rev [Card HEARTS 5, Card HEARTS 7])
          \<and> (\<forall>k\<in>set (children (t ! 0)).
                \<exists>a. action (t ! k) = Some a \<and> apply_action follow_state a 1 = Inr (state (t ! k))
                   \<and> untried_actions (t ! k) = hands (state (t ! k)) ! 1)"
    by blast
  then have b: "\<exists>t. run_simulations (141 / 100) 1 follow_state 2
             [root_node follow_state 1 [Card HEARTS 5, Card HEARTS 7]] = Some (Inr t)
          \<and> untried_actions (t ! 0) = []
          \<and> map (\<lambda>k. action (t ! k)) (children (t ! 0)) = [Some (Card HEARTS 7), Some (Card HEARTS 5)]
          \<and> (\<forall>k\<in>set (children (t ! 0)).
                \<exists>a. action (t ! k) = Some a \<and> apply_action follow_state a 1 = Inr (state (t ! k))
                   \<and> untried_actions (t ! k) = hands (state (t ! k)) ! 1)"
    by (simp del: run_simulations.simps add: numeral_2_eq_2)
  from h follow_expand a b show ?thesis by blast
qed

section \<open>The decision of the search agent\<close>

lemma two_slices:
  assumes "2 \<le> length U"
  shows "take 1 (drop 0 U) = [U ! 0] \<and> take 1 (drop 1 U) = [U ! 1]"
proof -
  from assms obtain x y rest where "U = x # y # rest"
    by (cases U; cases "tl U") auto
  then show ?thesis by simp
qed

lemma unknown_round1:
  "length (filter (\<lambda>c. c \<notin> known_cards round1_state 0) create_standard_deck) = 56"
  by code_simp

lemma determinize_round1:
  "\<exists>a b rs'. determinize_state rs round1_state 0
      = Inr (round1_state\<lparr>hands := [[Card HEARTS 5], [a], [b]]\<rparr>, rs')"
proof -
  let ?unknown = "filter (\<lambda>c. c \<notin> known_cards round1_state 0) create_standard_deck"
  obtain U rs' where sh: "shuffle rs ?unknown = (U, rs')" by (cases "shuffle rs ?unknown")
  have "length U = 56" using shuffle_length [of rs ?unknown] sh unknown_round1 by simp
  then have sl: "take 1 (drop 0 U) = [U ! 0]" "take 1 (drop 1 U) = [U ! 1]"
    using two_slices [of U] by simp_all
  have "redistribute round1_state 0 U [0..<3] (hands round1_state, 0)
          = Inr [[Card HEARTS 5], [U ! 0], [U ! 1]]"
    using sl by (simp add: round1_state_def upt_rec)
  then have "determinize_state rs round1_state 0
      = Inr (round1_state\<lparr>hands := [[Card HEARTS 5], [U ! 0], [U ! 1]]\<rparr>, rs')"
    using sh by (simp add: determinize_state_def) (simp add: round1_state_def)
  then show ?thesis by blast
qed

lemma search_crash:
  "mcts_search c (Suc (Suc k)) (round1_state\<lparr>hands := [[Card HEARTS 5], [a], [b]]\<rparr>) 0 [Card HEARTS 5]
     = Some (Inl ValueError)"
  by (simp add: mcts_search_def simulation_def select_loop.simps backpropagate.simps
        root_node_def expansion_def expand_def apply_node_action_def apply_action_def get_valid_actions_def
        simulate_def select_child_def ucb1_def node_value_def is_terminal_def
        is_fully_expanded_def py_max_def round1_state_def Let_def)

text \<open>
  C6 fails on the code. In round 1 of a three-player game the search agent at seat 0 holds
  one card and leads. With two or more simulations and one or more determinizations (the
  defaults are 1000 and 5), whatever the random source and the exploration constant,
  \<open>play\<close> raises ValueError and returns no card: the first simulation expands the root
  into its only child; that child has no untried action and no child, and is not terminal
  because the other seats still hold cards; the second simulation selects it and then asks
  for the best of its children, the maximum of an empty list.
\<close>

theorem mcts_play_raises_in_round1:
  "mcts_play c (Suc (Suc k)) (Suc d) rs [Card HEARTS 5] 0 round1_state = Some (Inl ValueError)
   \<and> get_valid_plays (hands round1_state ! 0) None = [Card HEARTS 5]"
proof -
  from determinize_round1 [of rs] obtain a b rs'
    where det: "determinize_state rs round1_state 0
      = Inr (round1_state\<lparr>hands := [[Card HEARTS 5], [a], [b]]\<rparr>, rs')" by blast
  have "play_loop c (Suc (Suc k)) (Suc d) round1_state 0 [Card HEARTS 5] rs av = Some (Inl ValueError)" for av
    using det search_crash [of c k a b] by simp
  then have "mcts_play c (Suc (Suc k)) (Suc d) rs [Card HEARTS 5] 0 round1_state = Some (Inl ValueError)"
    by (simp add: mcts_play_def)
  moreover have "get_valid_plays (hands round1_state ! 0) None = [Card HEARTS 5]"
    by (simp add: get_valid_plays_def round1_state_def)
  ultimately show ?thesis by simp
qed

end
